theory Spec2Isabelle
  imports Complex_Main "HOL-Library.AList" "HOL-Library.List_Lexorder"
begin

section \<open>Values, branches and the simulator state\<close>

text \<open>
  The simulator of \<^verbatim>\<open>qumquat/main.py\<close> keeps a superposition as a list of branches. The
  Python floats and complex floats are idealised as the reals and the complex numbers, so
  \<^verbatim>\<open>math.sqrt\<close>, \<^verbatim>\<open>abs\<close> and the divisions below are exact.
\<close>

datatype error =
    SyntaxError string
  | ValueError string
  | TypeError string
  | KeyError
  | IndexError
  | ZeroDivisionError
  | OverflowError

text \<open>
  Modelled from the spec: the enriched integer \<^verbatim>\<open>es_int\<close> of \<^verbatim>\<open>qvars\<close>, which is not part of
  the sources at hand. The spec describes it as a signed integer with value equality, a sign
  flag that is kept independently of the magnitude, and LSB-indexed bits that are
  zero-extended beyond the current width. \<open>ES s m\<close> is the integer of magnitude \<open>m\<close> whose
  sign flag is negative when \<open>s\<close> holds.
\<close>

datatype es_int = ES (es_neg: bool) (es_mag: nat)

definition es_of_int :: "int \<Rightarrow> es_int" where
  "es_of_int n = ES (n < 0) (nat \<bar>n\<bar>)"

definition int_of :: "es_int \<Rightarrow> int" where
  "int_of x = (if es_neg x then - int (es_mag x) else int (es_mag x))"

text \<open>\<^verbatim>\<open>x[i]\<close> and \<^verbatim>\<open>x[i] = v\<close> (any \<open>v\<close> other than 0 sets the bit).\<close>

definition getitem :: "es_int \<Rightarrow> nat \<Rightarrow> int" where
  "getitem x i = (if bit (es_mag x) i then 1 else 0)"

definition setitem :: "es_int \<Rightarrow> nat \<Rightarrow> int \<Rightarrow> es_int" where
  "setitem x i v = ES (es_neg x) (if v = 0 then unset_bit i (es_mag x) else set_bit i (es_mag x))"

text \<open>What an expression evaluates to: an enriched integer or a float.\<close>

datatype pyval = VInt es_int | VFloat real

fun to_real :: "pyval \<Rightarrow> real" where
  "to_real (VInt x) = real_of_int (int_of x)"
| "to_real (VFloat r) = r"

text \<open>\<^verbatim>\<open>v != 0\<close> and \<^verbatim>\<open>a == b\<close> compare by value.\<close>

definition nonzero :: "pyval \<Rightarrow> bool" where
  "nonzero v = (to_real v \<noteq> 0)"

definition py_eq :: "pyval \<Rightarrow> pyval \<Rightarrow> bool" where
  "py_eq a b = (to_real a = to_real b)"

text \<open>
  A branch is the Python dictionary with the entry \<^verbatim>\<open>"amp"\<close> and one entry per register id;
  the register entries are kept as an association list in insertion order.
\<close>

record branch =
  amp :: complex
  regs :: "(nat \<times> es_int) list"

text \<open>
  Modelled from the spec: \<^verbatim>\<open>Expression\<close> and \<^verbatim>\<open>Key\<close> of \<^verbatim>\<open>qvars\<close>. An expression is its
  evaluation function \<^verbatim>\<open>c\<close>, the set \<^verbatim>\<open>keys\<close> of the key identifiers it reads and its
  \<^verbatim>\<open>float\<close> flag. A key is its identifier \<^verbatim>\<open>key.key\<close> together with the register id that
  \<^verbatim>\<open>key.index()\<close> returns at the time of the call.
\<close>

record expression =
  expr_c :: "branch \<Rightarrow> pyval"
  expr_keys :: "nat set"
  expr_float :: bool

record key =
  key_key :: nat
  key_index :: nat

text \<open>
  The \<^verbatim>\<open>val\<close> argument of the initialisation and measurement primitives after the casts at
  the head of each primitive (a range becomes a list, a key or an integer an expression).
  List entries and dictionary keys are literals that the primitives type-check.
\<close>

datatype lit = LInt int | LEs es_int | LFloat real

datatype qval =
    QExpr expression
  | QList "lit list"
  | QDict "(lit \<times> expression) list"
  | QOther

datatype arg = AKey key | AExpr expression | AVal qval | ABool bool | AFun "branch \<Rightarrow> es_int"

datatype action = Action string "arg list"

text \<open>The fields of the \<^verbatim>\<open>Qumquat\<close> object. Python appends to and pops from the end of a list,
  so the top of each stack is the last element. \<^verbatim>\<open>garbage_piles\<close> is kept as the stack of keyless
  piles and the named piles; an entry of \<^verbatim>\<open>pile_stack\<close> is a keyless pile, a list of its own, or
  the list object of a named pile, given by its name.\<close>

datatype pile = KeylessPile "key list" | NamedPile string

record state =
  branches :: "branch list"
  controls :: "expression list"
  queue_stack :: "action list list"
  mode_stack :: "string list"
  garbage_stack :: "string list"
  keyless_piles :: "key list list"
  named_piles :: "(string \<times> key list) list"
  pile_stack :: "pile list"
  reg_count :: nat
  key_dict :: "nat \<Rightarrow> nat list option"

text \<open>A primitive either returns, with the new state and its value, or raises, leaving the
  state as it was at the \<^verbatim>\<open>raise\<close>.\<close>

datatype 'a outcome = Returned state 'a | Raised state error

definition thresh :: real where
  "thresh = 1 / 10 ^ 10"

definition queue_action :: "state \<Rightarrow> action \<Rightarrow> state option" where
  "queue_action s a =
     (if queue_stack s = [] then None
      else Some (s\<lparr>queue_stack := butlast (queue_stack s) @ [last (queue_stack s) @ [a]]\<rparr>))"

definition goodbranch :: "expression list \<Rightarrow> branch \<Rightarrow> bool" where
  "goodbranch ctrls b = list_all (\<lambda>ctrl. nonzero (expr_c ctrl b)) ctrls"

definition controlled_branches :: "state \<Rightarrow> branch list" where
  "controlled_branches s = filter (goodbranch (controls s)) (branches s)"

text \<open>\<^verbatim>\<open>assert_mutable\<close>: the first control that reads the key raises.\<close>

definition assert_mutable :: "state \<Rightarrow> key \<Rightarrow> error option" where
  "assert_mutable s k =
     (if list_ex (\<lambda>ctrl. key_key k \<in> expr_keys ctrl) (controls s)
      then Some (SyntaxError ''Cannot modify value of controlling register.'')
      else None)"

subsection \<open>Pruning\<close>

definition prob_of :: "branch \<Rightarrow> real" where
  "prob_of b = (cmod (amp b))\<^sup>2"

definition prune_branches :: "branch list \<Rightarrow> branch list" where
  "prune_branches bs =
     (let newbranches = filter (\<lambda>b. cmod (amp b) > thresh) bs;
          norm = sqrt (foldl (\<lambda>n b. n + prob_of b) 0 newbranches)
      in map (\<lambda>b. b\<lparr>amp := amp b / complex_of_real norm\<rparr>) newbranches)"

definition prune :: "state \<Rightarrow> state" where
  "prune s = s\<lparr>branches := prune_branches (branches s)\<rparr>"

subsection \<open>Postselection\<close>

text \<open>
  In \<^verbatim>\<open>postselect\<close> the range of a double decides what happens, and the model says where:
  \<^verbatim>\<open>abs(branch["amp"])**2\<close> is \<open>0.0\<close> when the square is at most \<open>2^-1075\<close> (it underflows), it
  raises \<^verbatim>\<open>OverflowError\<close> when the square reaches \<open>2^1024\<close>, and the sum \<^verbatim>\<open>prob\<close> is \<^verbatim>\<open>inf\<close> once it
  reaches \<open>2^1024\<close>; an amplitude divided by \<^verbatim>\<open>inf\<close> is 0. Inside the range the float operations
  are taken as exact.
\<close>

datatype pyfloat = Float real | Infinity

definition float_sq :: "real \<Rightarrow> real" where
  "float_sq x = (if x\<^sup>2 \<le> 1 / 2 ^ 1075 then 0 else x\<^sup>2)"

definition postselect :: "state \<Rightarrow> expression \<Rightarrow> pyfloat outcome" where
  "postselect s expr =
     (if mode_stack s \<noteq> [] then Raised s (SyntaxError ''Can only measure at top-level.'')
      else
        let newbranches = filter (\<lambda>b. nonzero (expr_c expr b)) (branches s);
            prob = foldl (\<lambda>p b. p + float_sq (cmod (amp b))) 0 newbranches
        in if list_ex (\<lambda>b. 2 ^ 1024 \<le> (cmod (amp b))\<^sup>2) newbranches then Raised s OverflowError
           else if newbranches = [] then Raised s (ValueError ''Postselection failed!'')
           else if 2 ^ 1024 \<le> prob
           then Returned (s\<lparr>branches := map (\<lambda>b. b\<lparr>amp := 0\<rparr>) newbranches\<rparr>) Infinity
           else if sqrt prob = 0 then Raised (s\<lparr>branches := newbranches\<rparr>) ZeroDivisionError
           else Returned
                  (s\<lparr>branches := map (\<lambda>b. b\<lparr>amp := amp b / complex_of_real (sqrt prob)\<rparr>) newbranches\<rparr>)
                  (Float prob))"

subsection \<open>Register access and merging\<close>

text \<open>\<^verbatim>\<open>branch[r]\<close> raises \<^verbatim>\<open>KeyError\<close> when the branch has no register \<open>r\<close>;
  \<^verbatim>\<open>branch[r] = v\<close> overwrites the entry or appends a new one.\<close>

definition reg :: "branch \<Rightarrow> nat \<Rightarrow> es_int option" where
  "reg b r = map_of (regs b) r"

definition setreg :: "branch \<Rightarrow> nat \<Rightarrow> es_int \<Rightarrow> branch" where
  "setreg b r v = b\<lparr>regs := AList.update r v (regs b)\<rparr>"

text \<open>
  The local function \<^verbatim>\<open>branchesEqual(b1, b2)\<close> of \<^verbatim>\<open>had\<close>, \<^verbatim>\<open>qft\<close>, \<^verbatim>\<open>perp_init\<close> and
  \<^verbatim>\<open>measure_state\<close>: every register of \<open>b1\<close> has an equal value in \<open>b2\<close>. Python raises
  \<^verbatim>\<open>KeyError\<close> when \<open>b2\<close> lacks a register of \<open>b1\<close>; \<^verbatim>\<open>alloc\<close> and \<^verbatim>\<open>alloc_inv\<close> keep all
  branches on the same registers, and the model answers \<open>False\<close> there.
\<close>

definition branchesEqual :: "branch \<Rightarrow> branch \<Rightarrow> bool" where
  "branchesEqual b1 b2 =
     list_all (\<lambda>(r, v). case reg b2 r of Some w \<Rightarrow> int_of v = int_of w | None \<Rightarrow> False) (regs b1)"

text \<open>The local function \<^verbatim>\<open>insert\<close> (\<^verbatim>\<open>insertBranch\<close>): add the amplitude to the first
  structurally equal branch, or append.\<close>

fun insert_branch :: "branch \<Rightarrow> branch list \<Rightarrow> branch list" where
  "insert_branch b [] = [b]"
| "insert_branch b (e # es) =
     (if branchesEqual b e then e\<lparr>amp := amp e + amp b\<rparr> # es else e # insert_branch b es)"

text \<open>Modelled from the spec: bits are indexed from the least significant one; the spec gives
  no meaning to a negative or non-integer position, and the model raises \<^verbatim>\<open>IndexError\<close> there.\<close>

definition bit_index :: "pyval \<Rightarrow> nat option" where
  "bit_index v =
     (case v of
        VInt x \<Rightarrow> (if 0 \<le> int_of x then Some (nat (int_of x)) else None)
      | VFloat r \<Rightarrow> None)"

subsection \<open>Hadamard\<close>

text \<open>The loop of \<^verbatim>\<open>had\<close> over \<^verbatim>\<open>self.branches\<close>, with \<^verbatim>\<open>newbranches\<close> as accumulator.\<close>

fun had_loop :: "expression list \<Rightarrow> key \<Rightarrow> expression \<Rightarrow> branch list \<Rightarrow> branch list \<Rightarrow> error + branch list" where
  "had_loop ctrls k bit_e [] newbranches = Inr newbranches"
| "had_loop ctrls k bit_e (b # bs) newbranches =
     (if \<not> goodbranch ctrls b then had_loop ctrls k bit_e bs (insert_branch b newbranches)
      else
        case reg b (key_index k) of
          None \<Rightarrow> Inl KeyError
        | Some v \<Rightarrow>
            (case bit_index (expr_c bit_e b) of
               None \<Rightarrow> Inl IndexError
             | Some idx \<Rightarrow>
                 let newbranch1 = setreg (b\<lparr>amp := amp b / complex_of_real (sqrt 2)\<rparr>) (key_index k) (setitem v idx 0);
                     newbranch2 = setreg (b\<lparr>amp := amp b / complex_of_real (sqrt 2)\<rparr>) (key_index k) (setitem v idx 1);
                     newbranch2 = (if getitem v idx = 1 then newbranch2\<lparr>amp := amp newbranch2 * (- 1)\<rparr> else newbranch2)
                 in had_loop ctrls k bit_e bs (insert_branch newbranch2 (insert_branch newbranch1 newbranches))))"

definition had :: "state \<Rightarrow> key \<Rightarrow> expression \<Rightarrow> unit outcome" where
  "had s k bit_e =
     (case queue_action s (Action ''had'' [AKey k, AExpr bit_e]) of
        Some s' \<Rightarrow> Returned s' ()
      | None \<Rightarrow>
          (case assert_mutable s k of
             Some e \<Rightarrow> Raised s e
           | None \<Rightarrow>
               if key_key k \<in> expr_keys bit_e
               then Raised s (SyntaxError ''Can't hadamard variable in bit depending on itself.'')
               else
                 (case had_loop (controls s) k bit_e (branches s) [] of
                    Inl e \<Rightarrow> Raised s e
                  | Inr newbranches \<Rightarrow> Returned (prune (s\<lparr>branches := newbranches\<rparr>)) ())))"

subsection \<open>Quantum Fourier transform\<close>

text \<open>One pass of the inner loop \<^verbatim>\<open>for i in range(int(dval))\<close>.
  \<^verbatim>\<open>cmath.exp(x*2j*math.pi/d)\<close> is \<open>cis (x * 2 * pi / d)\<close>.\<close>

definition qft_branch :: "key \<Rightarrow> bool \<Rightarrow> branch \<Rightarrow> es_int \<Rightarrow> int \<Rightarrow> int \<Rightarrow> branch" where
  "qft_branch k inverse_flag b v d i =
     (let base = int_of v - (int_of v mod d);
          a = amp b * complex_of_real (1 / sqrt (real_of_int d));
          a = (if inverse_flag then a * cis (real_of_int (- int_of v * i) * 2 * pi / real_of_int d)
               else a * cis (real_of_int (int_of v * i) * 2 * pi / real_of_int d))
      in setreg (b\<lparr>amp := a\<rparr>) (key_index k) (ES (es_neg v) (es_mag (es_of_int (i + base)))))"

fun qft_loop :: "expression list \<Rightarrow> key \<Rightarrow> expression \<Rightarrow> bool \<Rightarrow> branch list \<Rightarrow> branch list \<Rightarrow> error + branch list" where
  "qft_loop ctrls k d inverse_flag [] newbranches = Inr newbranches"
| "qft_loop ctrls k d inverse_flag (b # bs) newbranches =
     (if \<not> goodbranch ctrls b then qft_loop ctrls k d inverse_flag bs (insert_branch b newbranches)
      else
        let dval = to_real (expr_c d b) in
        if dval \<noteq> real_of_int \<lfloor>dval\<rfloor> \<or> \<lfloor>dval\<rfloor> \<le> 1
        then Inl (ValueError ''QFT must be over a positive integer'')
        else
          (case reg b (key_index k) of
             None \<Rightarrow> Inl KeyError
           | Some v \<Rightarrow>
               qft_loop ctrls k d inverse_flag bs
                 (foldl (\<lambda>new i. insert_branch (qft_branch k inverse_flag b v \<lfloor>dval\<rfloor> (int i)) new)
                    newbranches [0 ..< nat \<lfloor>dval\<rfloor>])))"

definition qft :: "state \<Rightarrow> key \<Rightarrow> expression \<Rightarrow> bool \<Rightarrow> unit outcome" where
  "qft s k d inverse_flag =
     (case queue_action s (Action ''qft'' [AKey k, AExpr d, ABool inverse_flag]) of
        Some s' \<Rightarrow> Returned s' ()
      | None \<Rightarrow>
          (case assert_mutable s k of
             Some e \<Rightarrow> Raised s e
           | None \<Rightarrow>
               if key_key k \<in> expr_keys d
               then Raised s (SyntaxError ''Can't modify target based on expression that depends on target.'')
               else
                 (case qft_loop (controls s) k d inverse_flag (branches s) [] of
                    Inl e \<Rightarrow> Raised s e
                  | Inr newbranches \<Rightarrow> Returned (prune (s\<lparr>branches := newbranches\<rparr>)) ())))"

definition qft_inv :: "state \<Rightarrow> key \<Rightarrow> expression \<Rightarrow> bool \<Rightarrow> unit outcome" where
  "qft_inv s k d inverse_flag = qft s k d (\<not> inverse_flag)"

subsection \<open>Arithmetic and phase\<close>

text \<open>\<^verbatim>\<open>oper\<close> rebinds the register of each controlled branch to the value \<^verbatim>\<open>do(branch)\<close>.\<close>

definition oper :: "state \<Rightarrow> key \<Rightarrow> expression \<Rightarrow> (branch \<Rightarrow> es_int) \<Rightarrow> (branch \<Rightarrow> es_int) \<Rightarrow> unit outcome" where
  "oper s k expr do undo =
     (case queue_action s (Action ''oper'' [AKey k, AExpr expr, AFun do, AFun undo]) of
        Some s' \<Rightarrow> Returned s' ()
      | None \<Rightarrow>
          (case assert_mutable s k of
             Some e \<Rightarrow> Raised s e
           | None \<Rightarrow>
               if key_key k \<in> expr_keys expr
               then Raised s (SyntaxError ''Can't modify target based on expression that depends on target.'')
               else Returned
                      (s\<lparr>branches :=
                           map (\<lambda>b. if goodbranch (controls s) b then setreg b (key_index k) (do b) else b)
                               (branches s)\<rparr>) ()))"

definition oper_inv :: "state \<Rightarrow> key \<Rightarrow> expression \<Rightarrow> (branch \<Rightarrow> es_int) \<Rightarrow> (branch \<Rightarrow> es_int) \<Rightarrow> unit outcome" where
  "oper_inv s k expr do undo = oper s k expr undo do"

definition phase :: "state \<Rightarrow> expression \<Rightarrow> unit outcome" where
  "phase s theta =
     (case queue_action s (Action ''phase'' [AExpr theta]) of
        Some s' \<Rightarrow> Returned s' ()
      | None \<Rightarrow>
          Returned
            (s\<lparr>branches :=
                 map (\<lambda>b. if goodbranch (controls s) b
                           then b\<lparr>amp := amp b * cis (to_real (expr_c theta b))\<rparr> else b)
                     (branches s)\<rparr>) ())"

subsection \<open>Reversible scopes\<close>

definition push_mode :: "state \<Rightarrow> string \<Rightarrow> state" where
  "push_mode s mode = s\<lparr>mode_stack := mode_stack s @ [mode]\<rparr>"

text \<open>\<^verbatim>\<open>__enter__\<close> of the wrappers returned by \<^verbatim>\<open>inv()\<close> and \<^verbatim>\<open>q_while(expr, key)\<close>, and
  \<^verbatim>\<open>enter\<close> of the wrapper returned by \<^verbatim>\<open>garbage(*keys)\<close> (\<open>None\<close> when no name is given).\<close>

definition inv_enter :: "state \<Rightarrow> state" where
  "inv_enter s = (let s1 = push_mode s ''inv'' in s1\<lparr>queue_stack := queue_stack s1 @ [[]]\<rparr>)"

definition q_while_enter :: "state \<Rightarrow> state" where
  "q_while_enter s = s\<lparr>queue_stack := queue_stack s @ [[]]\<rparr>"

definition garbage_enter :: "state \<Rightarrow> string option \<Rightarrow> unit outcome" where
  "garbage_enter s name =
     (case name of
        None \<Rightarrow>
          Returned (s\<lparr>garbage_stack := garbage_stack s @ [''keyless''],
                      keyless_piles := keyless_piles s @ [[]],
                      queue_stack := queue_stack s @ [[]]\<rparr>) ()
      | Some n \<Rightarrow>
          if n = ''keyless'' then Raised s (SyntaxError '''keyless' is a reserved garbage pile key.'')
          else Returned (s\<lparr>garbage_stack := garbage_stack s @ [n],
                           named_piles := (if n \<in> fst ` set (named_piles s) then named_piles s
                                           else named_piles s @ [(n, [])]),
                           queue_stack := queue_stack s @ [[]]\<rparr>) ())"

subsection \<open>Example expressions and states\<close>

text \<open>Modelled from the spec: the expression of an integer literal, and the expression that reads
  a key's register. The initial state is the one of the class attributes.\<close>

definition const_expr :: "int \<Rightarrow> expression" where
  "const_expr n = \<lparr>expr_c = (\<lambda>b. VInt (es_of_int n)), expr_keys = {}, expr_float = False\<rparr>"

definition key_expr :: "key \<Rightarrow> expression" where
  "key_expr k =
     \<lparr>expr_c = (\<lambda>b. case reg b (key_index k) of Some v \<Rightarrow> VInt v | None \<Rightarrow> VInt (ES False 0)),
      expr_keys = {key_key k}, expr_float = False\<rparr>"

definition init_state :: state where
  "init_state =
     \<lparr>branches = [\<lparr>amp = 1, regs = []\<rparr>], controls = [], queue_stack = [], mode_stack = [],
      garbage_stack = [], keyless_piles = [], named_piles = [], pile_stack = [],
      reg_count = 0, key_dict = (\<lambda>k. None)\<rparr>"

definition state_of :: "branch list \<Rightarrow> state" where
  "state_of bs = init_state\<lparr>branches := bs\<rparr>"

subsection \<open>Initialisation\<close>

text \<open>The first loop of \<^verbatim>\<open>init\<close> (and of \<^verbatim>\<open>perp_init\<close>), over the controlled branches.\<close>

fun check_uninitialized :: "nat \<Rightarrow> branch list \<Rightarrow> error option" where
  "check_uninitialized r [] = None"
| "check_uninitialized r (b # bs) =
     (case reg b r of
        None \<Rightarrow> Some KeyError
      | Some v \<Rightarrow>
          if int_of v \<noteq> 0 then Some (ValueError ''Register already initialized!'')
          else check_uninitialized r bs)"

fun is_int_lit :: "lit \<Rightarrow> bool" where
  "is_int_lit (LInt n) = True"
| "is_int_lit (LEs x) = True"
| "is_int_lit (LFloat r) = False"

fun lit_val :: "lit \<Rightarrow> real" where
  "lit_val (LInt n) = real_of_int n"
| "lit_val (LEs x) = real_of_int (int_of x)"
| "lit_val (LFloat r) = r"

text \<open>\<^verbatim>\<open>es_int(x)\<close> for a list entry or dictionary key that passed the type check.\<close>

fun es_of_lit :: "lit \<Rightarrow> es_int" where
  "es_of_lit (LInt n) = es_of_int n"
| "es_of_lit (LEs x) = x"
| "es_of_lit (LFloat r) = es_of_int \<lfloor>r\<rfloor>"

text \<open>The validity loop over a list \<^verbatim>\<open>val\<close>: entry \<open>i\<close> must be an integer, and
  \<^verbatim>\<open>val.index(val[i]) != i\<close> finds an equal earlier entry. The two errors differ between the
  primitives and are parameters.\<close>

fun check_list :: "error \<Rightarrow> error \<Rightarrow> lit list \<Rightarrow> lit list \<Rightarrow> error option" where
  "check_list e_type e_dup seen [] = None"
| "check_list e_type e_dup seen (x # xs) =
     (if \<not> is_int_lit x then Some e_type
      else if list_ex (\<lambda>y. lit_val y = lit_val x) seen then Some e_dup
      else check_list e_type e_dup (seen @ [x]) xs)"

text \<open>The loop over the keys of a dictionary \<^verbatim>\<open>val\<close>: only \<^verbatim>\<open>int\<close> keys pass.\<close>

fun is_py_int :: "lit \<Rightarrow> bool" where
  "is_py_int (LInt n) = True"
| "is_py_int (LEs x) = False"
| "is_py_int (LFloat r) = False"

definition check_dict_keys :: "(lit \<times> expression) list \<Rightarrow> error option" where
  "check_dict_keys kvs =
     (if list_all (\<lambda>(k, e). is_py_int k) kvs then None else Some (TypeError ''QRAM keys must be integers.''))"

definition dict_norm :: "(lit \<times> expression) list \<Rightarrow> branch \<Rightarrow> real" where
  "dict_norm kvs b = foldl (\<lambda>n (k, e). n + \<bar>to_real (expr_c e b)\<bar>\<^sup>2) 0 kvs"

text \<open>The Expression arm of \<^verbatim>\<open>init\<close> assigns in place, branch after branch. Modelled from the
  spec: \<^verbatim>\<open>es_int(v)\<close> of a float is a type error.\<close>

fun init_expr_loop :: "expression list \<Rightarrow> nat \<Rightarrow> expression \<Rightarrow> branch list \<Rightarrow> branch list \<times> error option" where
  "init_expr_loop ctrls r e [] = ([], None)"
| "init_expr_loop ctrls r e (b # bs) =
     (if goodbranch ctrls b then
        (case expr_c e b of
           VInt x \<Rightarrow> (case init_expr_loop ctrls r e bs of (bs', err) \<Rightarrow> (setreg b r x # bs', err))
         | VFloat f \<Rightarrow> (b # bs, Some (TypeError ''Quantum registers can only contain ints'')))
      else (case init_expr_loop ctrls r e bs of (bs', err) \<Rightarrow> (b # bs', err)))"

definition init_list_branches :: "expression list \<Rightarrow> nat \<Rightarrow> lit list \<Rightarrow> branch list \<Rightarrow> branch list" where
  "init_list_branches ctrls r vs bs =
     concat (map (\<lambda>b. if goodbranch ctrls b
                       then map (\<lambda>x. setreg (b\<lparr>amp := amp b / complex_of_real (sqrt (real (length vs)))\<rparr>) r (es_of_lit x)) vs
                       else [b]) bs)"

fun init_dict_loop :: "expression list \<Rightarrow> nat \<Rightarrow> (lit \<times> expression) list \<Rightarrow> branch list \<Rightarrow> error + branch list" where
  "init_dict_loop ctrls r kvs [] = Inr []"
| "init_dict_loop ctrls r kvs (b # bs) =
     (if goodbranch ctrls b then
        (if \<bar>dict_norm kvs b\<bar> < thresh then Inl (ValueError ''State from dictionary has norm 0.'')
         else
           (case init_dict_loop ctrls r kvs bs of
              Inl err \<Rightarrow> Inl err
            | Inr rest \<Rightarrow>
                Inr (filter (\<lambda>nb. cmod (amp nb) \<noteq> 0)
                       (map (\<lambda>(k, e). setreg (b\<lparr>amp := amp b *
                                 complex_of_real (to_real (expr_c e b) / sqrt (dict_norm kvs b))\<rparr>) r (es_of_lit k)) kvs)
                     @ rest)))
      else (case init_dict_loop ctrls r kvs bs of Inl err \<Rightarrow> Inl err | Inr rest \<Rightarrow> Inr (b # rest)))"

definition init :: "state \<Rightarrow> key \<Rightarrow> qval \<Rightarrow> unit outcome" where
  "init s k val =
     (case queue_action s (Action ''init'' [AKey k, AVal val]) of
        Some s' \<Rightarrow> Returned s' ()
      | None \<Rightarrow>
          (case assert_mutable s k of
             Some e \<Rightarrow> Raised s e
           | None \<Rightarrow>
               (case check_uninitialized (key_index k) (controlled_branches s) of
                  Some e \<Rightarrow> Raised s e
                | None \<Rightarrow>
                    (case val of
                       QExpr e \<Rightarrow>
                         if expr_float e then Raised s (TypeError ''Quantum registers can only contain ints'')
                         else
                           (case init_expr_loop (controls s) (key_index k) e (branches s) of
                              (bs', None) \<Rightarrow> Returned (s\<lparr>branches := bs'\<rparr>) ()
                            | (bs', Some err) \<Rightarrow> Raised (s\<lparr>branches := bs'\<rparr>) err)
                     | QList vs \<Rightarrow>
                         (case check_list (TypeError ''Superpositions only support integer literals.'')
                                 (ValueError ''Superpositions can't contain repeated values.'') [] vs of
                            Some e \<Rightarrow> Raised s e
                          | None \<Rightarrow>
                              Returned (s\<lparr>branches := init_list_branches (controls s) (key_index k) vs (branches s)\<rparr>) ())
                     | QDict kvs \<Rightarrow>
                         (case check_dict_keys kvs of
                            Some e \<Rightarrow> Raised s e
                          | None \<Rightarrow>
                              (case init_dict_loop (controls s) (key_index k) kvs (branches s) of
                                 Inl e \<Rightarrow> Raised s e
                               | Inr newbranches \<Rightarrow> Returned (s\<lparr>branches := newbranches\<rparr>) ()))
                     | QOther \<Rightarrow> Raised s (TypeError ''Invalid initialization of register with type '')))))"

subsection \<open>Uninitialisation\<close>

text \<open>
  The Expression arm of \<^verbatim>\<open>init_inv\<close>. Its loop only compares: the assignment
  \<^verbatim>\<open>branch[key.index()] = es_int(0)\<close> stands after the \<^verbatim>\<open>raise\<close> inside the \<^verbatim>\<open>if\<close> and is never
  executed, so no branch is written.
\<close>

fun init_inv_expr_loop :: "expression list \<Rightarrow> nat \<Rightarrow> expression \<Rightarrow> branch list \<Rightarrow> error option" where
  "init_inv_expr_loop ctrls r e [] = None"
| "init_inv_expr_loop ctrls r e (b # bs) =
     (let target = (if goodbranch ctrls b then expr_c e b else VInt (es_of_int 0)) in
      case reg b r of
        None \<Rightarrow> Some KeyError
      | Some v \<Rightarrow>
          if \<not> py_eq (VInt v) target
          then Some (ValueError ''Failed to uncompute: not all branches matched specified value.'')
          else init_inv_expr_loop ctrls r e bs)"

text \<open>The list arm: first the branches that carry \<^verbatim>\<open>val[0]\<close>, with the register set to 0, and
  the untouched ones.\<close>

fun init_inv_list_first :: "expression list \<Rightarrow> nat \<Rightarrow> lit list \<Rightarrow> branch list \<Rightarrow> error + (branch list \<times> branch list)" where
  "init_inv_list_first ctrls r vs [] = Inr ([], [])"
| "init_inv_list_first ctrls r vs (b # bs) =
     (if goodbranch ctrls b then
        (case reg b r of
           None \<Rightarrow> Inl KeyError
         | Some v \<Rightarrow>
             (case vs of
                [] \<Rightarrow> Inl IndexError
              | v0 # _ \<Rightarrow>
                  (case init_inv_list_first ctrls r vs bs of
                     Inl err \<Rightarrow> Inl err
                   | Inr (newbranches, untouched) \<Rightarrow>
                       if real_of_int (int_of v) \<noteq> lit_val v0 then Inr (newbranches, untouched)
                       else Inr (setreg b r (es_of_int 0) # newbranches, untouched))))
      else
        (case init_inv_list_first ctrls r vs bs of
           Inl err \<Rightarrow> Inl err
         | Inr (newbranches, untouched) \<Rightarrow> Inr (newbranches, b # untouched)))"

text \<open>The test \<^verbatim>\<open>good\<close> of the partner search: equal amplitudes up to \<open>1e-10\<close> and equal
  registers other than the target.\<close>

definition partner_ok :: "nat \<Rightarrow> branch \<Rightarrow> branch \<Rightarrow> bool" where
  "partner_ok r nb b =
     (\<not> cmod (amp nb - amp b) > 1 / 10 ^ 10 \<and>
      list_all (\<lambda>(q, v). q = r \<or> (case reg b q of Some w \<Rightarrow> int_of v = int_of w | None \<Rightarrow> False)) (regs nb))"

fun init_inv_list_match :: "expression list \<Rightarrow> nat \<Rightarrow> lit \<Rightarrow> branch list \<Rightarrow> branch list \<Rightarrow> nat list \<Rightarrow> error + nat list" where
  "init_inv_list_match ctrls r x newbranches [] found = Inr found"
| "init_inv_list_match ctrls r x newbranches (b # bs) found =
     (if \<not> goodbranch ctrls b then init_inv_list_match ctrls r x newbranches bs found
      else
        case reg b r of
          None \<Rightarrow> Inl KeyError
        | Some v \<Rightarrow>
            if real_of_int (int_of v) \<noteq> lit_val x then init_inv_list_match ctrls r x newbranches bs found
            else
              (case List.find (\<lambda>j. j \<notin> set found \<and> partner_ok r (newbranches ! j) b) [0 ..< length newbranches] of
                 None \<Rightarrow> Inl (ValueError ''Failed to clean superposition.'')
               | Some j \<Rightarrow> init_inv_list_match ctrls r x newbranches bs (found @ [j])))"

fun init_inv_list_rest :: "expression list \<Rightarrow> nat \<Rightarrow> branch list \<Rightarrow> branch list \<Rightarrow> lit list \<Rightarrow> error option" where
  "init_inv_list_rest ctrls r newbranches bs [] = None"
| "init_inv_list_rest ctrls r newbranches bs (x # xs) =
     (case init_inv_list_match ctrls r x newbranches bs [] of
        Inl err \<Rightarrow> Some err
      | Inr found \<Rightarrow>
          if length found < length newbranches then Some (ValueError ''Failed to clean superposition.'')
          else init_inv_list_rest ctrls r newbranches bs xs)"

text \<open>The dictionary arm. \<^verbatim>\<open>branchesEqual\<close> there skips the target register.\<close>

definition branchesEqual_except :: "nat \<Rightarrow> branch \<Rightarrow> branch \<Rightarrow> bool" where
  "branchesEqual_except r b1 b2 =
     list_all (\<lambda>(q, v). q = r \<or> (case reg b2 q of Some w \<Rightarrow> int_of v = int_of w | None \<Rightarrow> False)) (regs b1)"

fun init_inv_dict_loop ::
  "expression list \<Rightarrow> nat \<Rightarrow> (lit \<times> expression) list \<Rightarrow> branch list \<Rightarrow> (branch \<times> complex) list \<Rightarrow>
   branch list \<Rightarrow> branch list \<Rightarrow> error + (branch list \<times> branch list)" where
  "init_inv_dict_loop ctrls r kvs [] checks newbranches untouched = Inr (newbranches, untouched)"
| "init_inv_dict_loop ctrls r kvs (b # bs) checks newbranches untouched =
     (if \<not> goodbranch ctrls b then init_inv_dict_loop ctrls r kvs bs checks newbranches (untouched @ [b])
      else
        case reg b r of
          None \<Rightarrow> Inl KeyError
        | Some v \<Rightarrow>
            (case List.find (\<lambda>(k, e). lit_val k = real_of_int (int_of v)) kvs of
               None \<Rightarrow> Inl KeyError
             | Some (k, e) \<Rightarrow>
                 if to_real (expr_c e b) = 0 then Inl (ValueError ''Failed to clean QRAM.'')
                 else if \<bar>dict_norm kvs b\<bar> < thresh then Inl (ValueError ''State from dictionary has norm 0.'')
                 else
                   let a = amp b / complex_of_real (to_real (expr_c e b)) * complex_of_real (sqrt (dict_norm kvs b)) in
                   (case List.find (\<lambda>(cb, ca). branchesEqual_except r b cb) checks of
                      Some (cb, ca) \<Rightarrow>
                        if cmod (ca - a) > 1 / 10 ^ 10 then Inl (ValueError ''Failed to clean QRAM.'')
                        else init_inv_dict_loop ctrls r kvs bs checks newbranches untouched
                    | None \<Rightarrow>
                        init_inv_dict_loop ctrls r kvs bs (checks @ [(b, a)])
                          (newbranches @ [setreg (b\<lparr>amp := a\<rparr>) r (es_of_int 0)]) untouched)))"

definition init_inv :: "state \<Rightarrow> key \<Rightarrow> qval \<Rightarrow> unit outcome" where
  "init_inv s k val =
     (case queue_action s (Action ''init_inv'' [AKey k, AVal val]) of
        Some s' \<Rightarrow> Returned s' ()
      | None \<Rightarrow>
          (case assert_mutable s k of
             Some e \<Rightarrow> Raised s e
           | None \<Rightarrow>
               (case val of
                  QExpr e \<Rightarrow>
                    (case init_inv_expr_loop (controls s) (key_index k) e (branches s) of
                       Some err \<Rightarrow> Raised s err
                     | None \<Rightarrow> Returned s ())
                | QList vs \<Rightarrow>
                    (case check_list (TypeError ''Superpositions only support non-superposed integers.'')
                            (TypeError ''Superpositions can't contain repeated values.'') [] vs of
                       Some e \<Rightarrow> Raised s e
                     | None \<Rightarrow>
                         (case init_inv_list_first (controls s) (key_index k) vs (branches s) of
                            Inl e \<Rightarrow> Raised s e
                          | Inr (newbranches, untouched) \<Rightarrow>
                              if length (branches s) \<noteq> length newbranches * length vs + length untouched
                              then Raised s (ValueError ''Failed to clean superposition.'')
                              else
                                (case init_inv_list_rest (controls s) (key_index k) newbranches (branches s) (tl vs) of
                                   Some e \<Rightarrow> Raised s e
                                 | None \<Rightarrow>
                                     Returned
                                       (s\<lparr>branches :=
                                            map (\<lambda>b. b\<lparr>amp := amp b * complex_of_real (sqrt (real (length vs)))\<rparr>) newbranches
                                            @ untouched\<rparr>) ())))
                | QDict kvs \<Rightarrow>
                    (case check_dict_keys kvs of
                       Some e \<Rightarrow> Raised s e
                     | None \<Rightarrow>
                         (case init_inv_dict_loop (controls s) (key_index k) kvs (branches s) [] [] [] of
                            Inl e \<Rightarrow> Raised s e
                          | Inr (newbranches, untouched) \<Rightarrow> Returned (s\<lparr>branches := newbranches @ untouched\<rparr>) ()))
                | QOther \<Rightarrow> Raised s (TypeError ''Invalid un-initialization of register with type ''))))"

subsection \<open>Perpendicular bit, Expression arm\<close>

text \<open>The arm \<^verbatim>\<open>isinstance(val, Expression)\<close> of \<^verbatim>\<open>perp_init\<close>: on each controlled branch,
  \<^verbatim>\<open>branch[orth.index()] = es_int(branch[key.index()] != val.c(branch))\<close>.\<close>

fun perp_init_expr_loop :: "expression list \<Rightarrow> nat \<Rightarrow> nat \<Rightarrow> expression \<Rightarrow> branch list \<Rightarrow> branch list \<times> error option" where
  "perp_init_expr_loop ctrls r orth e [] = ([], None)"
| "perp_init_expr_loop ctrls r orth e (b # bs) =
     (if goodbranch ctrls b then
        (case reg b r of
           None \<Rightarrow> (b # bs, Some KeyError)
         | Some v \<Rightarrow>
             (case perp_init_expr_loop ctrls r orth e bs of
                (bs', err) \<Rightarrow> (setreg b orth (es_of_int (if py_eq (VInt v) (expr_c e b) then 0 else 1)) # bs', err)))
      else (case perp_init_expr_loop ctrls r orth e bs of (bs', err) \<Rightarrow> (b # bs', err)))"

definition perp_init_Expression :: "state \<Rightarrow> key \<Rightarrow> key \<Rightarrow> expression \<Rightarrow> unit outcome" where
  "perp_init_Expression s k orth e =
     (case queue_action s (Action ''perp_init'' [AKey k, AKey orth, AVal (QExpr e)]) of
        Some s' \<Rightarrow> Returned s' ()
      | None \<Rightarrow>
          (case assert_mutable s orth of
             Some err \<Rightarrow> Raised s err
           | None \<Rightarrow>
               (case check_uninitialized (key_index orth) (controlled_branches s) of
                  Some err \<Rightarrow> Raised s err
                | None \<Rightarrow>
                    if expr_float e then Raised s (TypeError ''Can only reflect around integers'')
                    else
                      (case perp_init_expr_loop (controls s) (key_index k) (key_index orth) e (branches s) of
                         (bs', None) \<Rightarrow> Returned (s\<lparr>branches := bs'\<rparr>) ()
                       | (bs', Some err) \<Rightarrow> Raised (s\<lparr>branches := bs'\<rparr>) err))))"

text \<open>
  The arm \<^verbatim>\<open>isinstance(val, Expression)\<close> of \<^verbatim>\<open>perp_init_inv\<close>. The loop runs over all
  branches; after the comparison of \<^verbatim>\<open>branch[orth.index()]\<close> with the target it executes
  \<^verbatim>\<open>branch[key.index()] = es_int(0)\<close>, in place.
\<close>

fun perp_init_inv_expr_loop :: "expression list \<Rightarrow> nat \<Rightarrow> nat \<Rightarrow> expression \<Rightarrow> branch list \<Rightarrow> branch list \<times> error option" where
  "perp_init_inv_expr_loop ctrls r orth e [] = ([], None)"
| "perp_init_inv_expr_loop ctrls r orth e (b # bs) =
     (case (if goodbranch ctrls b
            then (case reg b r of
                    None \<Rightarrow> Inl KeyError
                  | Some v \<Rightarrow> Inr (if py_eq (VInt v) (expr_c e b) then 0 else 1))
            else Inr (0 :: int)) of
        Inl err \<Rightarrow> (b # bs, Some err)
      | Inr target \<Rightarrow>
          (case reg b orth of
             None \<Rightarrow> (b # bs, Some KeyError)
           | Some ov \<Rightarrow>
               if int_of ov \<noteq> target then (b # bs, Some (ValueError ''Failed to uncompute perpendicular bit.''))
               else (case perp_init_inv_expr_loop ctrls r orth e bs of
                       (bs', err) \<Rightarrow> (setreg b r (es_of_int 0) # bs', err))))"

definition perp_init_inv_Expression :: "state \<Rightarrow> key \<Rightarrow> key \<Rightarrow> expression \<Rightarrow> unit outcome" where
  "perp_init_inv_Expression s k orth e =
     (case queue_action s (Action ''perp_init_inv'' [AKey k, AKey orth, AVal (QExpr e)]) of
        Some s' \<Rightarrow> Returned s' ()
      | None \<Rightarrow>
          (case assert_mutable s k of
             Some err \<Rightarrow> Raised s err
           | None \<Rightarrow>
               if expr_float e then Raised s (TypeError ''Can only reflect around integers'')
               else
                 (case perp_init_inv_expr_loop (controls s) (key_index k) (key_index orth) e (branches s) of
                    (bs', None) \<Rightarrow> Returned (s\<lparr>branches := bs'\<rparr>) ()
                  | (bs', Some err) \<Rightarrow> Raised (s\<lparr>branches := bs'\<rparr>) err)))"

definition key0 :: key where
  "key0 = \<lparr>key_key = 0, key_index = 0\<rparr>"

definition key1 :: key where
  "key1 = \<lparr>key_key = 1, key_index = 1\<rparr>"

lemmas eval_defs =
  state_of_def init_state_def key0_def key1_def const_expr_def key_expr_def
  queue_action_def assert_mutable_def goodbranch_def controlled_branches_def
  reg_def setreg_def es_of_int_def int_of_def nonzero_def py_eq_def

subsection \<open>Measurement\<close>

text \<open>\<^verbatim>\<open>round(float(ex), 10)\<close> of \<^verbatim>\<open>dist\<close>: rounding to \<open>n\<close> decimals, ties to even.\<close>

definition py_round :: "real \<Rightarrow> nat \<Rightarrow> real" where
  "py_round x n =
     (let y = x * 10 ^ n; f = \<lfloor>y\<rfloor>
      in real_of_int (if y - real_of_int f < 1 / 2 then f
                      else if y - real_of_int f > 1 / 2 then f + 1
                      else if even f then f else f + 1) / 10 ^ n)"

fun index_of :: "'a \<Rightarrow> 'a list \<Rightarrow> nat" where
  "index_of x [] = 0"
| "index_of x (y # ys) = (if x = y then 0 else Suc (index_of x ys))"

text \<open>The loop of \<^verbatim>\<open>dist\<close> over the branch indices, for arguments that are expressions. The
  value of a branch is kept as the list of the rounded values, also for a single argument.\<close>

fun dist_loop ::
  "expression list \<Rightarrow> branch list \<Rightarrow> nat \<Rightarrow> real list list \<Rightarrow> nat list list \<Rightarrow> real list \<Rightarrow>
   real list list \<times> nat list list \<times> real list" where
  "dist_loop exprs [] i values configs probs = (values, configs, probs)"
| "dist_loop exprs (b # bs) i values configs probs =
     (let val = map (\<lambda>e. py_round (to_real (expr_c e b)) 10) exprs in
      if val \<notin> set values
      then dist_loop exprs bs (Suc i) (values @ [val]) (configs @ [[i]]) (probs @ [prob_of b])
      else
        let idx = index_of val values
        in dist_loop exprs bs (Suc i) values
             (configs[idx := configs ! idx @ [i]]) (probs[idx := probs ! idx + prob_of b]))"

definition dist :: "state \<Rightarrow> expression list \<Rightarrow> real list list \<times> real list \<times> nat list list" where
  "dist s exprs =
     (case dist_loop exprs (branches s) 0 [] [] [] of
        (values, configs, probs) \<Rightarrow>
          let idxs = sort_key (\<lambda>i. values ! i) [0 ..< length probs]
          in (map (\<lambda>i. values ! i) idxs, map (\<lambda>i. probs ! i) idxs, map (\<lambda>i. configs ! i) idxs))"

text \<open>The cumulative draw of \<^verbatim>\<open>measure\<close>; \<open>r\<close> is the value of \<^verbatim>\<open>random()\<close>. \<open>None\<close> stands for
  \<^verbatim>\<open>pick = -1\<close>, which indexes the last outcome.\<close>

fun pick_loop :: "real list \<Rightarrow> real \<Rightarrow> real \<Rightarrow> nat \<Rightarrow> nat option" where
  "pick_loop [] r cumul i = None"
| "pick_loop (p # ps) r cumul i = (if cumul + p > r then Some i else pick_loop ps r (cumul + p) (Suc i))"

definition measure_op :: "state \<Rightarrow> expression list \<Rightarrow> real \<Rightarrow> real list outcome" where
  "measure_op s var r =
     (if mode_stack s \<noteq> [] then Raised s (SyntaxError ''Can only measure at top-level.'')
      else
        case dist s var of
          (values, probs, configs) \<Rightarrow>
            if probs = [] then Raised s IndexError
            else
              let pick = (case pick_loop probs r 0 0 of Some i \<Rightarrow> i | None \<Rightarrow> length probs - 1);
                  newbranches = map (\<lambda>i. branches s ! i) (configs ! pick)
              in if sqrt (probs ! pick) = 0 then Raised (s\<lparr>branches := newbranches\<rparr>) ZeroDivisionError
                 else Returned
                        (s\<lparr>branches := map (\<lambda>b. b\<lparr>amp := amp b / complex_of_real (sqrt (probs ! pick))\<rparr>) newbranches\<rparr>)
                        (values ! pick))"

subsection \<open>State measurement\<close>

text \<open>What \<^verbatim>\<open>measure_state\<close> hands back: the float \<^verbatim>\<open>prob\<close> or the boolean \<^verbatim>\<open>outcome\<close>.\<close>

datatype measured = Prob real | Outcome bool

definition all_have :: "nat \<Rightarrow> branch list \<Rightarrow> bool" where
  "all_have r bs = list_all (\<lambda>b. reg b r \<noteq> None) bs"

definition the_reg :: "branch \<Rightarrow> nat \<Rightarrow> es_int" where
  "the_reg b r = (case reg b r of Some v \<Rightarrow> v | None \<Rightarrow> ES False 0)"

text \<open>The choice of the outcome, shared by the three arms; \<open>r\<close> is the value of \<^verbatim>\<open>random()\<close>.\<close>

definition ms_outcome :: "bool option \<Rightarrow> real \<Rightarrow> real \<Rightarrow> error + bool" where
  "ms_outcome postsel r prob =
     (case postsel of
        None \<Rightarrow> Inr (r < prob)
      | Some p \<Rightarrow>
          if p \<and> prob < thresh then Inl (ValueError ''Postselection failed!'')
          else if \<not> p \<and> prob > 1 - thresh then Inl (ValueError ''Postselection failed!'')
          else Inr p)"

text \<open>The loop \<^verbatim>\<open>branch["amp"] /= math.sqrt(prob)\<close> over the new branch list.\<close>

definition ms_renorm :: "branch list \<Rightarrow> real \<Rightarrow> error + branch list" where
  "ms_renorm newbranches prob =
     (if newbranches = [] then Inr []
      else if prob < 0 then Inl (ValueError ''math domain error'')
      else if sqrt prob = 0 then Inl ZeroDivisionError
      else Inr (map (\<lambda>b. b\<lparr>amp := amp b / complex_of_real (sqrt prob)\<rparr>) newbranches))"

text \<open>The end of \<^verbatim>\<open>measure_state\<close>: \<^verbatim>\<open>if postselect: return prob\<close>, then \<^verbatim>\<open>return outcome\<close>.\<close>

definition ms_return :: "bool option \<Rightarrow> real \<Rightarrow> bool \<Rightarrow> measured" where
  "ms_return postsel prob outcome = (if postsel = Some True then Prob prob else Outcome outcome)"

definition ms_expr_prob :: "nat \<Rightarrow> expression \<Rightarrow> branch list \<Rightarrow> real" where
  "ms_expr_prob r e bs =
     foldl (\<lambda>p b. p + prob_of b) 0 (filter (\<lambda>b. py_eq (VInt (the_reg b r)) (expr_c e b)) bs)"

definition ms_list_prob :: "nat \<Rightarrow> lit list \<Rightarrow> branch list \<Rightarrow> real" where
  "ms_list_prob r vs bs =
     Re (\<Sum>b1\<leftarrow>bs. \<Sum>b2\<leftarrow>bs. \<Sum>x\<leftarrow>vs. \<Sum>y\<leftarrow>vs.
           if real_of_int (int_of (the_reg b1 r)) = lit_val x \<and> real_of_int (int_of (the_reg b2 r)) = lit_val y
           then amp b1 * cnj (amp b2) else 0)
     / real (length vs)"

text \<open>The amplitude that the list arm gives to the target value at position \<open>j\<close>.\<close>

definition ms_list_amp :: "nat \<Rightarrow> lit list \<Rightarrow> bool \<Rightarrow> branch \<Rightarrow> nat \<Rightarrow> complex" where
  "ms_list_amp r vs outcome b j =
     (\<Sum>i\<leftarrow>[0 ..< length vs].
        if real_of_int (int_of (the_reg b r)) = lit_val (vs ! i)
        then (if outcome then amp b / of_nat (length vs)
              else amp b * ((if i = j then 1 else 0) - 1 / of_nat (length vs)))
        else 0)"

definition ms_list_branches :: "nat \<Rightarrow> lit list \<Rightarrow> bool \<Rightarrow> branch list \<Rightarrow> branch list" where
  "ms_list_branches r vs outcome bs =
     foldl (\<lambda>new b.
              foldl (\<lambda>new j.
                       if ms_list_amp r vs outcome b j = 0 then new
                       else insert_branch (setreg (b\<lparr>amp := ms_list_amp r vs outcome b j\<rparr>) r (es_of_lit (vs ! j))) new)
                    new [0 ..< length vs])
           [] bs"

text \<open>The dictionary arm. Its first loop type-checks each key, rejects an entry that reads the
  target and collects the key identifiers of the entries in the set \<^verbatim>\<open>controls\<close>.\<close>

fun ms_check_dict :: "key \<Rightarrow> (lit \<times> expression) list \<Rightarrow> error option" where
  "ms_check_dict k [] = None"
| "ms_check_dict k ((lk, e) # kvs) =
     (if \<not> is_py_int lk then Some (TypeError ''QRAM keys must be integers.'')
      else if key_key k \<in> expr_keys e
      then Some (SyntaxError ''Can't measure target with state that depends on target.'')
      else ms_check_dict k kvs)"

definition ms_dict_controls :: "(lit \<times> expression) list \<Rightarrow> nat set" where
  "ms_dict_controls kvs = \<Union> (set (map (\<lambda>(lk, e). expr_keys e) kvs))"

definition cnorm :: "(lit \<times> expression) list \<Rightarrow> branch \<Rightarrow> real" where
  "cnorm kvs b = foldl (\<lambda>n (lk, e). n + (cmod (complex_of_real (to_real (expr_c e b))))\<^sup>2) 0 kvs"

text \<open>
  The double loop over the pairs of branches. The members of \<^verbatim>\<open>controls\<close> are key identifiers
  and are used as register ids in \<^verbatim>\<open>b1[k] != b2[k]\<close>; a branch without such a register raises
  \<^verbatim>\<open>KeyError\<close>. The pairs are visited with \<open>b1\<close> in the outer loop.
\<close>

definition ms_dict_pair :: "nat \<Rightarrow> (lit \<times> expression) list \<Rightarrow> branch \<Rightarrow> branch \<Rightarrow> complex" where
  "ms_dict_pair r kvs b1 b2 =
     (\<Sum>(k1, e1)\<leftarrow>kvs. \<Sum>(k2, e2)\<leftarrow>kvs.
        if real_of_int (int_of (the_reg b1 r)) = lit_val k1 \<and> real_of_int (int_of (the_reg b2 r)) = lit_val k2
        then amp b1 * cnj (amp b2) * complex_of_real (to_real (expr_c e2 b1))
               * cnj (complex_of_real (to_real (expr_c e1 b1))) / complex_of_real (cnorm kvs b1)
        else 0)"

fun ms_dict_inner :: "nat \<Rightarrow> (lit \<times> expression) list \<Rightarrow> nat set \<Rightarrow> branch \<Rightarrow> branch list \<Rightarrow> complex \<Rightarrow> error + complex" where
  "ms_dict_inner r kvs ctl b1 [] prob = Inr prob"
| "ms_dict_inner r kvs ctl b1 (b2 # bs) prob =
     (if \<exists>k\<in>ctl. reg b1 k = None \<or> reg b2 k = None then Inl KeyError
      else if \<exists>k\<in>ctl. int_of (the_reg b1 k) \<noteq> int_of (the_reg b2 k) then ms_dict_inner r kvs ctl b1 bs prob
      else if \<bar>cnorm kvs b1\<bar> < thresh then Inl (ValueError ''State from dictionary has norm 0.'')
      else if kvs \<noteq> [] \<and>
              (reg b1 r = None \<or>
               (list_ex (\<lambda>(k1, e1). real_of_int (int_of (the_reg b1 r)) = lit_val k1) kvs \<and> reg b2 r = None))
      then Inl KeyError
      else ms_dict_inner r kvs ctl b1 bs (prob + ms_dict_pair r kvs b1 b2))"

fun ms_dict_outer :: "nat \<Rightarrow> (lit \<times> expression) list \<Rightarrow> nat set \<Rightarrow> branch list \<Rightarrow> branch list \<Rightarrow> complex \<Rightarrow> error + complex" where
  "ms_dict_outer r kvs ctl [] bs prob = Inr prob"
| "ms_dict_outer r kvs ctl (b1 # rest) bs prob =
     (case ms_dict_inner r kvs ctl b1 bs prob of
        Inl err \<Rightarrow> Inl err
      | Inr prob' \<Rightarrow> ms_dict_outer r kvs ctl rest bs prob')"

text \<open>The amplitude that the dictionary arm gives to the target value \<open>k1\<close>. The norm in the
  projector is computed on \<open>b1\<close>, which after the double loop is the last branch of the state.\<close>

definition ms_dict_amp :: "nat \<Rightarrow> (lit \<times> expression) list \<Rightarrow> bool \<Rightarrow> branch \<Rightarrow> branch \<Rightarrow> lit \<Rightarrow> expression \<Rightarrow> complex" where
  "ms_dict_amp r kvs outcome b1 b k1 e1 =
     (\<Sum>(k2, e2)\<leftarrow>kvs.
        if real_of_int (int_of (the_reg b r)) = lit_val k2
        then (let proj = complex_of_real (to_real (expr_c e2 b)) * cnj (complex_of_real (to_real (expr_c e1 b)))
                           / complex_of_real (cnorm kvs b1)
              in if outcome then amp b * proj
                 else amp b * ((if lit_val k1 = lit_val k2 then 1 else 0) - proj))
        else 0)"

definition ms_dict_branches :: "nat \<Rightarrow> (lit \<times> expression) list \<Rightarrow> bool \<Rightarrow> branch list \<Rightarrow> branch list" where
  "ms_dict_branches r kvs outcome bs =
     foldl (\<lambda>new b.
              foldl (\<lambda>new (k1, e1).
                       if ms_dict_amp r kvs outcome (last bs) b k1 e1 = 0 then new
                       else insert_branch (setreg (b\<lparr>amp := ms_dict_amp r kvs outcome (last bs) b k1 e1\<rparr>) r (es_of_lit k1)) new)
                    new kvs)
           [] bs"

text \<open>The tail shared by the arms: the complement of \<open>prob\<close> on outcome \<open>False\<close>, the assignment of
  the new branches, the renormalisation, the pruning (list and dictionary arms) and the return.\<close>

definition ms_finish :: "state \<Rightarrow> bool \<Rightarrow> bool option \<Rightarrow> bool \<Rightarrow> real \<Rightarrow> branch list \<Rightarrow> measured outcome" where
  "ms_finish s do_prune postsel outcome prob newbranches =
     (let prob' = (if \<not> outcome then 1 - prob else prob) in
      case ms_renorm newbranches prob' of
        Inl err \<Rightarrow> Raised (s\<lparr>branches := newbranches\<rparr>) err
      | Inr bs \<Rightarrow>
          Returned (if do_prune then prune (s\<lparr>branches := bs\<rparr>) else s\<lparr>branches := bs\<rparr>)
                   (ms_return postsel prob' outcome))"

definition measure_state :: "state \<Rightarrow> key \<Rightarrow> qval \<Rightarrow> bool option \<Rightarrow> real \<Rightarrow> measured outcome" where
  "measure_state s k val postsel r =
     (if mode_stack s \<noteq> [] then Raised s (SyntaxError ''Can only measure at top-level.'')
      else
        case assert_mutable s k of
          Some e \<Rightarrow> Raised s e
        | None \<Rightarrow>
            (case val of
               QExpr e \<Rightarrow>
                 if expr_float e then Raised s (TypeError ''Quantum registers can only contain ints'')
                 else if key_key k \<in> expr_keys e
                 then Raised s (SyntaxError ''Can't measure target with state that depends on target.'')
                 else if \<not> all_have (key_index k) (branches s) then Raised s KeyError
                 else
                   (case ms_outcome postsel r (ms_expr_prob (key_index k) e (branches s)) of
                      Inl err \<Rightarrow> Raised s err
                    | Inr outcome \<Rightarrow>
                        ms_finish s False postsel outcome (ms_expr_prob (key_index k) e (branches s))
                          (filter (\<lambda>b. py_eq (VInt (the_reg b (key_index k))) (expr_c e b) = outcome) (branches s)))
             | QList vs \<Rightarrow>
                 (case check_list (TypeError ''Superpositions only support integer literals.'')
                         (ValueError ''Superpositions can't contain repeated values.'') [] vs of
                    Some err \<Rightarrow> Raised s err
                  | None \<Rightarrow>
                      if vs \<noteq> [] \<and> \<not> all_have (key_index k) (branches s) then Raised s KeyError
                      else if vs = [] then Raised s ZeroDivisionError
                      else
                        (case ms_outcome postsel r (ms_list_prob (key_index k) vs (branches s)) of
                           Inl err \<Rightarrow> Raised s err
                         | Inr outcome \<Rightarrow>
                             ms_finish s True postsel outcome (ms_list_prob (key_index k) vs (branches s))
                               (ms_list_branches (key_index k) vs outcome (branches s))))
             | QDict kvs \<Rightarrow>
                 (case ms_check_dict k kvs of
                    Some err \<Rightarrow> Raised s err
                  | None \<Rightarrow>
                      (case ms_dict_outer (key_index k) kvs (ms_dict_controls kvs) (branches s) (branches s) 0 of
                         Inl err \<Rightarrow> Raised s err
                       | Inr prob \<Rightarrow>
                           (case ms_outcome postsel r (Re prob) of
                              Inl err \<Rightarrow> Raised s err
                            | Inr outcome \<Rightarrow>
                                ms_finish s True postsel outcome (Re prob)
                                  (ms_dict_branches (key_index k) kvs outcome (branches s)))))
             | QOther \<Rightarrow> Raised s (TypeError ''Invalid state measurement with type '')))"


subsection \<open>Register objects and CNOT\<close>

text \<open>
  \<^verbatim>\<open>cnot\<close> is the one primitive that writes a bit into the \<^verbatim>\<open>es_int\<close> object that a branch
  already holds: \<^verbatim>\<open>branch[key.index()][v_idx2] = ...\<close> calls \<^verbatim>\<open>__setitem__\<close> on that object
  (\<^verbatim>\<open>had\<close> and \<^verbatim>\<open>qft\<close> write into fresh copies). The list and dictionary arms of \<^verbatim>\<open>init\<close> build
  their branches with \<^verbatim>\<open>copy.copy(branch)\<close>, a shallow copy, so these branches hold the same
  objects for every register but the target. For \<^verbatim>\<open>cnot\<close> the state is therefore modelled
  with an explicit store: \<open>objects\<close> is the list of the \<^verbatim>\<open>es_int\<close> objects, and a branch maps
  each register id to the position of its object.
\<close>

record obj_branch =
  obj_amp :: complex
  obj_regs :: "(nat \<times> nat) list"

record obj_state =
  objects :: "es_int list"
  obj_branches :: "obj_branch list"
  obj_controls :: "expression list"
  obj_queue_stack :: "action list list"

text \<open>The branch as the expressions see it, and the state without the store.\<close>

definition view :: "es_int list \<Rightarrow> obj_branch \<Rightarrow> branch" where
  "view objs ob = \<lparr>amp = obj_amp ob, regs = map (\<lambda>(r, a). (r, objs ! a)) (obj_regs ob)\<rparr>"

definition view_state :: "obj_state \<Rightarrow> state" where
  "view_state s =
     init_state\<lparr>branches := map (view (objects s)) (obj_branches s),
                controls := obj_controls s, queue_stack := obj_queue_stack s\<rparr>"

text \<open>The loop of \<^verbatim>\<open>cnot\<close> over the list \<^verbatim>\<open>self.controlled_branches()\<close>, which is built before the
  first pass; each pass reads the store as the earlier passes left it.\<close>

fun cnot_loop :: "nat \<Rightarrow> expression \<Rightarrow> expression \<Rightarrow> obj_branch list \<Rightarrow> es_int list \<Rightarrow> es_int list \<times> error option" where
  "cnot_loop r idx1 idx2 [] objs = (objs, None)"
| "cnot_loop r idx1 idx2 (ob # obs) objs =
     (let v_idx1 = expr_c idx1 (view objs ob); v_idx2 = expr_c idx2 (view objs ob) in
      if py_eq v_idx1 v_idx2 then (objs, Some (ValueError ''Can't perform CNOT from index to itself.''))
      else
        case map_of (obj_regs ob) r of
          None \<Rightarrow> (objs, Some KeyError)
        | Some a \<Rightarrow>
            (case bit_index v_idx1 of
               None \<Rightarrow> (objs, Some IndexError)
             | Some n1 \<Rightarrow>
                 if getitem (objs ! a) n1 = 1 then
                   (case bit_index v_idx2 of
                      None \<Rightarrow> (objs, Some IndexError)
                    | Some n2 \<Rightarrow>
                        cnot_loop r idx1 idx2 obs (objs[a := setitem (objs ! a) n2 (1 - getitem (objs ! a) n2)]))
                 else cnot_loop r idx1 idx2 obs objs))"

text \<open>\<^verbatim>\<open>cnot\<close> returns the state and the error it raised, if any.\<close>

definition cnot :: "obj_state \<Rightarrow> key \<Rightarrow> expression \<Rightarrow> expression \<Rightarrow> obj_state \<times> error option" where
  "cnot s k idx1 idx2 =
     (case queue_action (view_state s) (Action ''cnot'' [AKey k, AExpr idx1, AExpr idx2]) of
        Some s' \<Rightarrow> (s\<lparr>obj_queue_stack := queue_stack s'\<rparr>, None)
      | None \<Rightarrow>
          (case assert_mutable (view_state s) k of
             Some e \<Rightarrow> (s, Some e)
           | None \<Rightarrow>
               if key_key k \<in> expr_keys idx1 \<or> key_key k \<in> expr_keys idx2
               then (s, Some (SyntaxError ''Can't modify target based on expression that depends on target.''))
               else
                 (case cnot_loop (key_index k) idx1 idx2
                          (filter (\<lambda>ob. goodbranch (obj_controls s) (view (objects s) ob)) (obj_branches s))
                          (objects s) of
                    (objs', err) \<Rightarrow> (s\<lparr>objects := objs'\<rparr>, err))))"

text \<open>The list arm of \<^verbatim>\<open>init\<close> on the store, after its checks: every new branch is a shallow copy
  of its source and gets a fresh object for the target register only.\<close>

fun obj_init_list_loop :: "expression list \<Rightarrow> nat \<Rightarrow> lit list \<Rightarrow> obj_branch list \<Rightarrow> es_int list \<Rightarrow> obj_branch list \<times> es_int list" where
  "obj_init_list_loop ctrls r vs [] objs = ([], objs)"
| "obj_init_list_loop ctrls r vs (ob # obs) objs =
     (if goodbranch ctrls (view objs ob) then
        (case obj_init_list_loop ctrls r vs obs (objs @ map es_of_lit vs) of
           (rest, objs') \<Rightarrow>
             (map (\<lambda>i. \<lparr>obj_amp = obj_amp ob / complex_of_real (sqrt (real (length vs))),
                        obj_regs = AList.update r (length objs + i) (obj_regs ob)\<rparr>) [0 ..< length vs] @ rest,
              objs'))
      else (case obj_init_list_loop ctrls r vs obs objs of (rest, objs') \<Rightarrow> (ob # rest, objs')))"

text \<open>The state in which every branch holds its own object for register \<open>r\<close>, an object that no
  other register refers to.\<close>

definition key_addr :: "nat \<Rightarrow> obj_branch \<Rightarrow> nat" where
  "key_addr r ob = (case map_of (obj_regs ob) r of Some a \<Rightarrow> a | None \<Rightarrow> 0)"

definition unshared :: "nat \<Rightarrow> obj_state \<Rightarrow> bool" where
  "unshared r s =
     (list_all (\<lambda>ob. distinct (map fst (obj_regs ob)) \<and> map_of (obj_regs ob) r \<noteq> None
                     \<and> key_addr r ob < length (objects s)) (obj_branches s)
      \<and> distinct (map (key_addr r) (obj_branches s))
      \<and> list_all (\<lambda>ob. list_all (\<lambda>(q, a). q = r \<or> a \<notin> key_addr r ` set (obj_branches s)) (obj_regs ob))
                 (obj_branches s))"

text \<open>What \<^verbatim>\<open>cnot\<close> is meant to do to one active branch.\<close>

definition cnot_branch :: "nat \<Rightarrow> expression \<Rightarrow> expression \<Rightarrow> branch \<Rightarrow> branch" where
  "cnot_branch r idx1 idx2 b =
     (case (bit_index (expr_c idx1 b), bit_index (expr_c idx2 b)) of
        (Some n1, Some n2) \<Rightarrow>
          if getitem (the_reg b r) n1 = 1
          then setreg b r (setitem (the_reg b r) n2 (1 - getitem (the_reg b r) n2))
          else b
      | _ \<Rightarrow> b)"

text \<open>The part of the state that the loop of \<^verbatim>\<open>cnot\<close> relies on when every branch of \<open>act\<close>
  holds its own object for register \<open>r\<close>.\<close>

definition own_objects :: "nat \<Rightarrow> obj_branch list \<Rightarrow> es_int list \<Rightarrow> bool" where
  "own_objects r act objs =
     (distinct (map (key_addr r) act) \<and>
      (\<forall>ob\<in>set act. distinct (map fst (obj_regs ob)) \<and> map_of (obj_regs ob) r \<noteq> None
          \<and> key_addr r ob < length objs
          \<and> (\<forall>(q, a)\<in>set (obj_regs ob). q \<noteq> r \<longrightarrow> a \<notin> key_addr r ` set act)))"

text \<open>Two branches with their own objects; the control reads register 1, so only the first
  branch is active.\<close>

definition own_example :: obj_state where
  "own_example =
     \<lparr>objects = [ES False 1, ES False 1, ES False 1, ES False 0],
      obj_branches = [\<lparr>obj_amp = 3 / 5, obj_regs = [(0, 0), (1, 1)]\<rparr>,
                      \<lparr>obj_amp = 4 / 5, obj_regs = [(0, 2), (1, 3)]\<rparr>],
      obj_controls = [key_expr key1], obj_queue_stack = []\<rparr>"

lemmas bit_eval = getitem_def setitem_def bit_index_def set_bit_0 set_bit_Suc unset_bit_0 unset_bit_Suc bit_0 bit_Suc

subsection \<open>Allocation\<close>

text \<open>\<^verbatim>\<open>alloc\<close> takes the next register id, pushes it on the id stack of the key and writes 0 at
  that id into every branch.\<close>

definition alloc :: "state \<Rightarrow> key \<Rightarrow> unit outcome" where
  "alloc s k =
     (case queue_action s (Action ''alloc'' [AKey k]) of
        Some s' \<Rightarrow> Returned s' ()
      | None \<Rightarrow>
          (case assert_mutable s k of
             Some e \<Rightarrow> Raised s e
           | None \<Rightarrow>
               (case key_dict s (key_key k) of
                  None \<Rightarrow> Raised s KeyError
                | Some ids \<Rightarrow>
                    Returned (s\<lparr>key_dict := (key_dict s)(key_key k \<mapsto> ids @ [reg_count s]),
                               reg_count := reg_count s + 1,
                               branches := map (\<lambda>b. setreg b (reg_count s) (es_of_int 0)) (branches s)\<rparr>) ())))"

text \<open>
  Modelled from the spec: \<^verbatim>\<open>key.allocated()\<close> says whether the id stack of the key in
  \<^verbatim>\<open>key_dict\<close> is nonempty. \<^verbatim>\<open>key.partner()\<close> is code of \<^verbatim>\<open>qvars\<close>; the key it returns is the
  argument \<open>partner\<close> of \<open>alloc_inv\<close>.
\<close>

definition allocated :: "state \<Rightarrow> key \<Rightarrow> bool" where
  "allocated s k = (case key_dict s (key_key k) of Some (i # ids) \<Rightarrow> True | _ \<Rightarrow> False)"

text \<open>The loop \<^verbatim>\<open>for branch in self.branches: branch.pop(target.index())\<close>, in place.\<close>

fun pop_loop :: "nat \<Rightarrow> branch list \<Rightarrow> branch list \<times> error option" where
  "pop_loop r [] = ([], None)"
| "pop_loop r (b # bs) =
     (case reg b r of
        None \<Rightarrow> (b # bs, Some KeyError)
      | Some v \<Rightarrow> (case pop_loop r bs of (bs', err) \<Rightarrow> (b\<lparr>regs := AList.delete r (regs b)\<rparr> # bs', err)))"

text \<open>The loop that deletes from the pile the first key with the given identifier. The pile on
  top of \<^verbatim>\<open>pile_stack\<close> is the list object of the garbage scope: for a named scope it is the
  list stored in \<^verbatim>\<open>garbage_piles\<close>, so the deletion shows there.\<close>

fun pile_remove :: "nat \<Rightarrow> key list \<Rightarrow> key list" where
  "pile_remove kk [] = []"
| "pile_remove kk (x # xs) = (if key_key x = kk then xs else x # pile_remove kk xs)"

definition edit_top_pile :: "(key list \<Rightarrow> key list) \<Rightarrow> state \<Rightarrow> state" where
  "edit_top_pile f s =
     (case last (pile_stack s) of
        KeylessPile ks \<Rightarrow> s\<lparr>pile_stack := butlast (pile_stack s) @ [KeylessPile (f ks)]\<rparr>
      | NamedPile n \<Rightarrow> s\<lparr>named_piles := map (\<lambda>(m, ks). if m = n then (m, f ks) else (m, ks)) (named_piles s)\<rparr>)"

definition alloc_inv :: "state \<Rightarrow> key \<Rightarrow> key \<Rightarrow> unit outcome" where
  "alloc_inv s k partner =
     (case queue_action s (Action ''alloc_inv'' [AKey k]) of
        Some s' \<Rightarrow> Returned s' ()
      | None \<Rightarrow>
          (case assert_mutable s k of
             Some e \<Rightarrow> Raised s e
           | None \<Rightarrow>
               let target = (if allocated s k then k else partner);
                   proxy = (if allocated s k then None else Some k)
               in case pop_loop (key_index target) (branches s) of
                    (bs', Some e) \<Rightarrow> Raised (s\<lparr>branches := bs'\<rparr>) e
                  | (bs', None) \<Rightarrow>
                      (case key_dict s (key_key target) of
                         None \<Rightarrow> Raised (s\<lparr>branches := bs'\<rparr>) KeyError
                       | Some ids \<Rightarrow>
                           if key_index target \<notin> set ids
                           then Raised (s\<lparr>branches := bs'\<rparr>) (ValueError ''list.remove(x): x not in list'')
                           else
                             let s1 = s\<lparr>branches := bs',
                                        key_dict := (key_dict s)(key_key target \<mapsto> remove1 (key_index target) ids)\<rparr>
                             in if pile_stack s1 \<noteq> [] \<and> \<not> allocated s1 target
                                then Returned
                                       (edit_top_pile (pile_remove (key_key target))
                                          (case proxy of
                                             None \<Rightarrow> s1
                                           | Some px \<Rightarrow> edit_top_pile (pile_remove (key_key px)) s1)) ()
                                else Returned s1 ())))"

subsection \<open>Perpendicular bit, list and dictionary arms\<close>

text \<open>
  The four loops of the list and dictionary arms of \<^verbatim>\<open>perp_init\<close> and \<^verbatim>\<open>perp_init_inv\<close> have one
  skeleton: a branch is either appended to \<^verbatim>\<open>newbranches\<close> as the object it is (after an in-place
  write to it, if any), or replaced by new branches that go through \<^verbatim>\<open>insertBranch\<close> in order.
  The result carries \<^verbatim>\<open>self.branches\<close> with the in-place writes made so far.
\<close>

datatype placement = Keep branch | Merge "branch list"

fun perp_loop :: "(branch \<Rightarrow> error + placement) \<Rightarrow> branch list \<Rightarrow> branch list \<Rightarrow> branch list \<times> (error + branch list)" where
  "perp_loop step [] newbranches = ([], Inr newbranches)"
| "perp_loop step (b # bs) newbranches =
     (case step b of
        Inl err \<Rightarrow> (b # bs, Inl err)
      | Inr (Keep x) \<Rightarrow> (case perp_loop step bs (newbranches @ [x]) of (bs', res) \<Rightarrow> (x # bs', res))
      | Inr (Merge xs) \<Rightarrow>
          (case perp_loop step bs (foldl (\<lambda>new x. insert_branch x new) newbranches xs) of
             (bs', res) \<Rightarrow> (b # bs', res)))"

text \<open>The \<open>2N\<close> branches \<^verbatim>\<open>br0\<close>, \<^verbatim>\<open>br1\<close> made from one branch whose key value is in the support of
  \<open>val\<close>, in the order of their insertion; \<open>w\<close> is the value written into \<open>orth\<close> on \<^verbatim>\<open>br1\<close>. The
  amplitudes \<^verbatim>\<open>amp0\<close> and \<^verbatim>\<open>amp1\<close> are computed by the expressions that \<^verbatim>\<open>measure_state\<close> uses for
  the outcomes \<open>True\<close> and \<open>False\<close>, with the norm of the current branch.\<close>

definition perp_list_pairs :: "nat \<Rightarrow> nat \<Rightarrow> lit list \<Rightarrow> es_int \<Rightarrow> branch \<Rightarrow> branch list" where
  "perp_list_pairs r orth vs w b =
     concat (map (\<lambda>j. [setreg (b\<lparr>amp := ms_list_amp r vs True b j\<rparr>) r (es_of_lit (vs ! j)),
                       setreg (setreg (b\<lparr>amp := ms_list_amp r vs False b j\<rparr>) r (es_of_lit (vs ! j))) orth w])
                 [0 ..< length vs])"

definition perp_dict_pairs :: "nat \<Rightarrow> nat \<Rightarrow> (lit \<times> expression) list \<Rightarrow> es_int \<Rightarrow> branch \<Rightarrow> branch list" where
  "perp_dict_pairs r orth kvs w b =
     concat (map (\<lambda>(k1, e1). [setreg (b\<lparr>amp := ms_dict_amp r kvs True b b k1 e1\<rparr>) r (es_of_lit k1),
                              setreg (setreg (b\<lparr>amp := ms_dict_amp r kvs False b b k1 e1\<rparr>) r (es_of_lit k1)) orth w])
                 kvs)"

text \<open>The loop bodies of \<^verbatim>\<open>perp_init\<close>.\<close>

definition perp_init_list_step :: "expression list \<Rightarrow> nat \<Rightarrow> nat \<Rightarrow> lit list \<Rightarrow> branch \<Rightarrow> error + placement" where
  "perp_init_list_step ctrls r orth vs b =
     (if \<not> goodbranch ctrls b then Inr (Keep b)
      else if vs \<noteq> [] \<and> reg b r = None then Inl KeyError
      else if \<not> list_ex (\<lambda>x. real_of_int (int_of (the_reg b r)) = lit_val x) vs
      then Inr (Keep (setreg b orth (es_of_int 1)))
      else Inr (Merge (perp_list_pairs r orth vs (es_of_int 1) b)))"

definition perp_init_dict_step :: "expression list \<Rightarrow> nat \<Rightarrow> nat \<Rightarrow> (lit \<times> expression) list \<Rightarrow> branch \<Rightarrow> error + placement" where
  "perp_init_dict_step ctrls r orth kvs b =
     (if \<not> goodbranch ctrls b then Inr (Keep b)
      else if \<bar>cnorm kvs b\<bar> < thresh then Inl (ValueError ''State from dictionary has norm 0.'')
      else if kvs \<noteq> [] \<and> reg b r = None then Inl KeyError
      else if \<not> list_ex (\<lambda>(k, e). real_of_int (int_of (the_reg b r)) = lit_val k) kvs
      then Inr (Keep (setreg b orth (es_of_int 1)))
      else Inr (Merge (perp_dict_pairs r orth kvs (es_of_int 1) b)))"

text \<open>The loop bodies of \<^verbatim>\<open>perp_init_inv\<close>, which check \<open>orth\<close> before they write;
  \<^verbatim>\<open>br1[orth.index()] = 1-br1[orth.index()]\<close> flips the bit there.\<close>

definition perp_init_inv_list_step :: "expression list \<Rightarrow> nat \<Rightarrow> nat \<Rightarrow> lit list \<Rightarrow> branch \<Rightarrow> error + placement" where
  "perp_init_inv_list_step ctrls r orth vs b =
     (if \<not> goodbranch ctrls b then
        (case reg b orth of
           None \<Rightarrow> Inl KeyError
         | Some w \<Rightarrow> if int_of w \<noteq> 0 then Inl (ValueError ''Failed to uncompute perpendicular bit.'')
                     else Inr (Keep b))
      else if vs \<noteq> [] \<and> reg b r = None then Inl KeyError
      else if \<not> list_ex (\<lambda>x. real_of_int (int_of (the_reg b r)) = lit_val x) vs then
        (case reg b orth of
           None \<Rightarrow> Inl KeyError
         | Some w \<Rightarrow> if int_of w \<noteq> 1 then Inl (ValueError ''Failed to uncompute perpendicular bit.'')
                     else Inr (Keep (setreg b orth (es_of_int 0))))
      else
        (case reg b orth of
           None \<Rightarrow> Inl KeyError
         | Some w \<Rightarrow> Inr (Merge (perp_list_pairs r orth vs (es_of_int (1 - int_of w)) b))))"

definition perp_init_inv_dict_step :: "expression list \<Rightarrow> nat \<Rightarrow> nat \<Rightarrow> (lit \<times> expression) list \<Rightarrow> branch \<Rightarrow> error + placement" where
  "perp_init_inv_dict_step ctrls r orth kvs b =
     (if \<not> goodbranch ctrls b then
        (case reg b orth of
           None \<Rightarrow> Inl KeyError
         | Some w \<Rightarrow> if int_of w \<noteq> 0 then Inl (ValueError ''Failed to uncompute perpendicular bit.'')
                     else Inr (Keep b))
      else if \<bar>cnorm kvs b\<bar> < thresh then Inl (ValueError ''State from dictionary has norm 0.'')
      else if kvs \<noteq> [] \<and> reg b r = None then Inl KeyError
      else if \<not> list_ex (\<lambda>(k, e). real_of_int (int_of (the_reg b r)) = lit_val k) kvs then
        (case reg b orth of
           None \<Rightarrow> Inl KeyError
         | Some w \<Rightarrow> if int_of w \<noteq> 1 then Inl (ValueError ''Failed to uncompute perpendicular bit.'')
                     else Inr (Keep (setreg b orth (es_of_int 0))))
      else
        (case reg b orth of
           None \<Rightarrow> Inl KeyError
         | Some w \<Rightarrow> Inr (Merge (perp_dict_pairs r orth kvs (es_of_int (1 - int_of w)) b))))"

text \<open>The first loop of the dictionary arms: a key must be an \<^verbatim>\<open>int\<close>, and no entry may read
  \<open>key\<close> or \<open>orth\<close>.\<close>

fun perp_check_dict :: "key \<Rightarrow> key \<Rightarrow> (lit \<times> expression) list \<Rightarrow> error option" where
  "perp_check_dict k orth [] = None"
| "perp_check_dict k orth ((lk, e) # kvs) =
     (if \<not> is_py_int lk then Some (TypeError ''QRAM keys must be integers.'')
      else if key_key k \<in> expr_keys e \<or> key_key orth \<in> expr_keys e
      then Some (SyntaxError ''Can't measure target with state that depends on target.'')
      else perp_check_dict k orth kvs)"

text \<open>The last loop of the list and dictionary arms of \<^verbatim>\<open>perp_init_inv\<close>, after the pruning.\<close>

fun check_orth_zero :: "nat \<Rightarrow> branch list \<Rightarrow> error option" where
  "check_orth_zero orth [] = None"
| "check_orth_zero orth (b # bs) =
     (case reg b orth of
        None \<Rightarrow> Some KeyError
      | Some w \<Rightarrow> if int_of w \<noteq> 0 then Some (ValueError ''Failed to uncompute perpendicular bit.'')
                  else check_orth_zero orth bs)"

definition perp_init :: "state \<Rightarrow> key \<Rightarrow> key \<Rightarrow> qval \<Rightarrow> unit outcome" where
  "perp_init s k orth val =
     (case val of
        QExpr e \<Rightarrow> perp_init_Expression s k orth e
      | _ \<Rightarrow>
          (case queue_action s (Action ''perp_init'' [AKey k, AKey orth, AVal val]) of
             Some s' \<Rightarrow> Returned s' ()
           | None \<Rightarrow>
               (case assert_mutable s orth of
                  Some err \<Rightarrow> Raised s err
                | None \<Rightarrow>
                    (case check_uninitialized (key_index orth) (controlled_branches s) of
                       Some err \<Rightarrow> Raised s err
                     | None \<Rightarrow>
                         (case val of
                            QList vs \<Rightarrow>
                              (case check_list (TypeError ''Superpositions only support integer literals.'')
                                      (ValueError ''Superpositions can't contain repeated values.'') [] vs of
                                 Some err \<Rightarrow> Raised s err
                               | None \<Rightarrow>
                                   (case perp_loop (perp_init_list_step (controls s) (key_index k) (key_index orth) vs)
                                           (branches s) [] of
                                      (bs', Inl err) \<Rightarrow> Raised (s\<lparr>branches := bs'\<rparr>) err
                                    | (bs', Inr newbranches) \<Rightarrow> Returned (prune (s\<lparr>branches := newbranches\<rparr>)) ()))
                          | QDict kvs \<Rightarrow>
                              (case perp_check_dict k orth kvs of
                                 Some err \<Rightarrow> Raised s err
                               | None \<Rightarrow>
                                   (case perp_loop (perp_init_dict_step (controls s) (key_index k) (key_index orth) kvs)
                                           (branches s) [] of
                                      (bs', Inl err) \<Rightarrow> Raised (s\<lparr>branches := bs'\<rparr>) err
                                    | (bs', Inr newbranches) \<Rightarrow> Returned (prune (s\<lparr>branches := newbranches\<rparr>)) ()))
                          | _ \<Rightarrow> Raised s (TypeError ''Invalid initialization of perpendicular register with type ''))))))"

definition perp_init_inv :: "state \<Rightarrow> key \<Rightarrow> key \<Rightarrow> qval \<Rightarrow> unit outcome" where
  "perp_init_inv s k orth val =
     (case val of
        QExpr e \<Rightarrow> perp_init_inv_Expression s k orth e
      | _ \<Rightarrow>
          (case queue_action s (Action ''perp_init_inv'' [AKey k, AKey orth, AVal val]) of
             Some s' \<Rightarrow> Returned s' ()
           | None \<Rightarrow>
               (case assert_mutable s k of
                  Some err \<Rightarrow> Raised s err
                | None \<Rightarrow>
                    (case val of
                       QList vs \<Rightarrow>
                         (case check_list (TypeError ''Superpositions only support integer literals.'')
                                 (ValueError ''Superpositions can't contain repeated values.'') [] vs of
                            Some err \<Rightarrow> Raised s err
                          | None \<Rightarrow>
                              (case perp_loop (perp_init_inv_list_step (controls s) (key_index k) (key_index orth) vs)
                                      (branches s) [] of
                                 (bs', Inl err) \<Rightarrow> Raised (s\<lparr>branches := bs'\<rparr>) err
                               | (bs', Inr newbranches) \<Rightarrow>
                                   (case check_orth_zero (key_index orth) (prune_branches newbranches) of
                                      Some err \<Rightarrow> Raised (prune (s\<lparr>branches := newbranches\<rparr>)) err
                                    | None \<Rightarrow> Returned (prune (s\<lparr>branches := newbranches\<rparr>)) ())))
                     | QDict kvs \<Rightarrow>
                         (case perp_check_dict k orth kvs of
                            Some err \<Rightarrow> Raised s err
                          | None \<Rightarrow>
                              (case perp_loop (perp_init_inv_dict_step (controls s) (key_index k) (key_index orth) kvs)
                                      (branches s) [] of
                                 (bs', Inl err) \<Rightarrow> Raised (s\<lparr>branches := bs'\<rparr>) err
                               | (bs', Inr newbranches) \<Rightarrow>
                                   (case check_orth_zero (key_index orth) (prune_branches newbranches) of
                                      Some err \<Rightarrow> Raised (prune (s\<lparr>branches := newbranches\<rparr>)) err
                                    | None \<Rightarrow> Returned (prune (s\<lparr>branches := newbranches\<rparr>)) ())))
                     | _ \<Rightarrow> Raised s (TypeError ''Invalid un-initialization of perpendicular register with type '')))))"

subsection \<open>Inverses by delegation\<close>

text \<open>\<^verbatim>\<open>had_inv\<close> calls \<^verbatim>\<open>had\<close>, and \<^verbatim>\<open>phase_inv\<close> calls \<^verbatim>\<open>self.phase(-theta)\<close>. Modelled from the spec:
  the negation of an expression negates its value and reads the same keys.\<close>

definition had_inv :: "state \<Rightarrow> key \<Rightarrow> expression \<Rightarrow> unit outcome" where
  "had_inv s k bit_e = had s k bit_e"

definition neg_expr :: "expression \<Rightarrow> expression" where
  "neg_expr e =
     e\<lparr>expr_c := (\<lambda>b. case expr_c e b of VInt x \<Rightarrow> VInt (es_of_int (- int_of x)) | VFloat f \<Rightarrow> VFloat (- f))\<rparr>"

definition phase_inv :: "state \<Rightarrow> expression \<Rightarrow> unit outcome" where
  "phase_inv s theta = phase s (neg_expr theta)"

subsection \<open>Dispatch of the controlled primitives\<close>

text \<open>The call tuples \<^verbatim>\<open>(op-name, args)\<close> of the primitives whose frame is studied below, and
  their dispatch by \<^verbatim>\<open>call(tup)\<close>. The second key of \<open>AllocInv\<close> is what \<^verbatim>\<open>key.partner()\<close> returns.\<close>

datatype primitive =
    Alloc key
  | AllocInv key key
  | Init key qval
  | InitInv key qval
  | PerpInit key key qval
  | PerpInitInv key key qval
  | Had key expression
  | HadInv key expression
  | Qft key expression bool
  | QftInv key expression bool
  | Oper key expression "branch \<Rightarrow> es_int" "branch \<Rightarrow> es_int"
  | OperInv key expression "branch \<Rightarrow> es_int" "branch \<Rightarrow> es_int"
  | Phase expression
  | PhaseInv expression

fun call :: "state \<Rightarrow> primitive \<Rightarrow> unit outcome" where
  "call s (Alloc k) = alloc s k"
| "call s (AllocInv k partner) = alloc_inv s k partner"
| "call s (Init k val) = init s k val"
| "call s (InitInv k val) = init_inv s k val"
| "call s (PerpInit k orth val) = perp_init s k orth val"
| "call s (PerpInitInv k orth val) = perp_init_inv s k orth val"
| "call s (Had k bit_e) = had s k bit_e"
| "call s (HadInv k bit_e) = had_inv s k bit_e"
| "call s (Qft k d inverse_flag) = qft s k d inverse_flag"
| "call s (QftInv k d inverse_flag) = qft_inv s k d inverse_flag"
| "call s (Oper k expr do undo) = oper s k expr do undo"
| "call s (OperInv k expr do undo) = oper_inv s k expr do undo"
| "call s (Phase theta) = phase s theta"
| "call s (PhaseInv theta) = phase_inv s theta"

text \<open>The primitives that merge new branches into \<^verbatim>\<open>newbranches\<close> and end with \<^verbatim>\<open>self.prune()\<close>,
  the list they hand to \<^verbatim>\<open>prune\<close>, and the registers they write.\<close>

fun prunes :: "primitive \<Rightarrow> bool" where
  "prunes (Had k bit_e) = True"
| "prunes (HadInv k bit_e) = True"
| "prunes (Qft k d inverse_flag) = True"
| "prunes (QftInv k d inverse_flag) = True"
| "prunes (PerpInit k orth (QList vs)) = True"
| "prunes (PerpInit k orth (QDict kvs)) = True"
| "prunes (PerpInitInv k orth (QList vs)) = True"
| "prunes (PerpInitInv k orth (QDict kvs)) = True"
| "prunes p = False"

fun merged :: "state \<Rightarrow> primitive \<Rightarrow> error + branch list" where
  "merged s (Had k bit_e) = had_loop (controls s) k bit_e (branches s) []"
| "merged s (HadInv k bit_e) = had_loop (controls s) k bit_e (branches s) []"
| "merged s (Qft k d inverse_flag) = qft_loop (controls s) k d inverse_flag (branches s) []"
| "merged s (QftInv k d inverse_flag) = qft_loop (controls s) k d (\<not> inverse_flag) (branches s) []"
| "merged s (PerpInit k orth (QList vs)) =
     snd (perp_loop (perp_init_list_step (controls s) (key_index k) (key_index orth) vs) (branches s) [])"
| "merged s (PerpInit k orth (QDict kvs)) =
     snd (perp_loop (perp_init_dict_step (controls s) (key_index k) (key_index orth) kvs) (branches s) [])"
| "merged s (PerpInitInv k orth (QList vs)) =
     snd (perp_loop (perp_init_inv_list_step (controls s) (key_index k) (key_index orth) vs) (branches s) [])"
| "merged s (PerpInitInv k orth (QDict kvs)) =
     snd (perp_loop (perp_init_inv_dict_step (controls s) (key_index k) (key_index orth) kvs) (branches s) [])"
| "merged s p = Inr (branches s)"

fun targets :: "primitive \<Rightarrow> nat set" where
  "targets (Had k bit_e) = {key_index k}"
| "targets (HadInv k bit_e) = {key_index k}"
| "targets (Qft k d inverse_flag) = {key_index k}"
| "targets (QftInv k d inverse_flag) = {key_index k}"
| "targets (PerpInit k orth val) = {key_index k, key_index orth}"
| "targets (PerpInitInv k orth val) = {key_index k, key_index orth}"
| "targets p = {}"

text \<open>The Expression arm of \<^verbatim>\<open>perp_init_inv\<close> writes the key register of every branch and is kept
  out of the frame property.\<close>

fun perp_inv_expression_arm :: "primitive \<Rightarrow> bool" where
  "perp_inv_expression_arm (PerpInitInv k orth (QExpr e)) = True"
| "perp_inv_expression_arm p = False"

text \<open>What a branch that the controls leave out looks like after the primitive: \<^verbatim>\<open>alloc\<close> and
  \<^verbatim>\<open>alloc_inv\<close> add and remove a register on every branch, the other primitives hand the branch
  on as it is.\<close>

fun frozen_image :: "state \<Rightarrow> primitive \<Rightarrow> branch \<Rightarrow> branch" where
  "frozen_image s (Alloc k) b = setreg b (reg_count s) (es_of_int 0)"
| "frozen_image s (AllocInv k partner) b =
     b\<lparr>regs := AList.delete (key_index (if allocated s k then k else partner)) (regs b)\<rparr>"
| "frozen_image s p b = b"

text \<open>Global invariant 5, and what \<^verbatim>\<open>assert_mutable\<close> is there to ensure: a branch on which all
  controls hold and a branch on which one fails differ in a register other than the targets.\<close>

definition structurally_distinct :: "branch list \<Rightarrow> bool" where
  "structurally_distinct bs =
     (\<forall>i<length bs. \<forall>j<length bs. i \<noteq> j \<longrightarrow> \<not> branchesEqual (bs ! i) (bs ! j))"

definition agree_off :: "nat set \<Rightarrow> branch \<Rightarrow> branch \<Rightarrow> bool" where
  "agree_off rs b1 b2 =
     list_all (\<lambda>(q, v). q \<in> rs \<or> (case reg b2 q of Some w \<Rightarrow> int_of v = int_of w | None \<Rightarrow> False)) (regs b1)"

definition separated :: "nat set \<Rightarrow> expression list \<Rightarrow> branch list \<Rightarrow> bool" where
  "separated rs ctrls bs =
     (\<forall>a\<in>set bs. \<forall>b\<in>set bs. goodbranch ctrls a \<and> \<not> goodbranch ctrls b \<longrightarrow>
         \<not> agree_off rs a b \<and> \<not> agree_off rs b a)"

text \<open>A branch \<open>x\<close> made from \<open>a\<close> by writing the amplitude and registers in \<open>rs\<close> only.\<close>

definition rewrite_of :: "nat set \<Rightarrow> branch \<Rightarrow> branch \<Rightarrow> bool" where
  "rewrite_of rs a x =
     ((\<forall>(q, w)\<in>set (regs a). q \<notin> rs \<longrightarrow> (q, w) \<in> set (regs x)) \<and> (\<forall>q. q \<notin> rs \<longrightarrow> reg x q = reg a q))"

text \<open>The common shape of the loops of \<^verbatim>\<open>had\<close> and \<^verbatim>\<open>qft\<close>: a frozen branch is inserted as it
  is, an active branch is replaced by the branches derived from it, inserted in order.\<close>

fun merge_loop :: "(branch \<Rightarrow> bool) \<Rightarrow> (branch \<Rightarrow> error + branch list) \<Rightarrow> branch list \<Rightarrow> branch list \<Rightarrow> error + branch list" where
  "merge_loop good derive [] newbranches = Inr newbranches"
| "merge_loop good derive (b # bs) newbranches =
     (if \<not> good b then merge_loop good derive bs (insert_branch b newbranches)
      else
        case derive b of
          Inl err \<Rightarrow> Inl err
        | Inr xs \<Rightarrow> merge_loop good derive bs (foldl (\<lambda>new x. insert_branch x new) newbranches xs))"

definition had_derive :: "key \<Rightarrow> expression \<Rightarrow> branch \<Rightarrow> error + branch list" where
  "had_derive k bit_e b =
     (case reg b (key_index k) of
        None \<Rightarrow> Inl KeyError
      | Some v \<Rightarrow>
          (case bit_index (expr_c bit_e b) of
             None \<Rightarrow> Inl IndexError
           | Some idx \<Rightarrow>
               let newbranch1 = setreg (b\<lparr>amp := amp b / complex_of_real (sqrt 2)\<rparr>) (key_index k) (setitem v idx 0);
                   newbranch2 = setreg (b\<lparr>amp := amp b / complex_of_real (sqrt 2)\<rparr>) (key_index k) (setitem v idx 1);
                   newbranch2 = (if getitem v idx = 1 then newbranch2\<lparr>amp := amp newbranch2 * (- 1)\<rparr> else newbranch2)
               in Inr [newbranch1, newbranch2]))"

definition qft_derive :: "key \<Rightarrow> expression \<Rightarrow> bool \<Rightarrow> branch \<Rightarrow> error + branch list" where
  "qft_derive k d inverse_flag b =
     (let dval = to_real (expr_c d b) in
      if dval \<noteq> real_of_int \<lfloor>dval\<rfloor> \<or> \<lfloor>dval\<rfloor> \<le> 1
      then Inl (ValueError ''QFT must be over a positive integer'')
      else
        (case reg b (key_index k) of
           None \<Rightarrow> Inl KeyError
         | Some v \<Rightarrow> Inr (map (\<lambda>i. qft_branch k inverse_flag b v \<lfloor>dval\<rfloor> (int i)) [0 ..< nat \<lfloor>dval\<rfloor>])))"

text \<open>A state with unit norm whose frozen branch has an amplitude below the threshold; it is what
  \<^verbatim>\<open>init\<close> makes of the dictionary \<open>{1: 10^22 - 1, 0: 2 * 10^11}\<close> on register 1.\<close>

definition tiny_state :: state where
  "tiny_state =
     (state_of [\<lparr>amp = complex_of_real ((10 ^ 22 - 1) / (10 ^ 22 + 1)), regs = [(0, ES False 0), (1, ES False 1)]\<rparr>,
                \<lparr>amp = complex_of_real (2 * 10 ^ 11 / (10 ^ 22 + 1)), regs = [(0, ES False 0), (1, ES False 0)]\<rparr>])
       \<lparr>controls := [key_expr key1]\<rparr>"

text \<open>A state with unit norm, one active and one frozen branch, both above the threshold.\<close>

definition frame_example :: state where
  "frame_example =
     (state_of [\<lparr>amp = 3 / 5, regs = [(0, ES False 0), (1, ES False 1)]\<rparr>,
                \<lparr>amp = 4 / 5, regs = [(0, ES False 0), (1, ES False 0)]\<rparr>])
       \<lparr>controls := [key_expr key1]\<rparr>"

lemmas upt_eval = upt_rec [of 0] upt_rec [of 1] upt_rec [of "Suc 0"] upt_rec [of 2] upt_rec [of "Suc (Suc 0)"]

section \<open>Properties\<close>

subsection \<open>Sums of probabilities\<close>

lemma foldl_prob_shift: "foldl (\<lambda>n b. n + prob_of b) a bs = a + sum_list (map prob_of bs)"
  by (induction bs arbitrary: a) simp_all

lemma foldl_prob: "foldl (\<lambda>n b. n + prob_of b) 0 bs = sum_list (map prob_of bs)"
  by (simp add: foldl_prob_shift)

lemma sum_list_prob_nonneg: "0 \<le> sum_list (map prob_of bs)"
  by (induction bs) (simp_all add: prob_of_def)



subsection \<open>Pruning\<close>

lemma prune_branches_eq:
  "prune_branches bs =
     map (\<lambda>b. b\<lparr>amp := amp b / complex_of_real (sqrt (sum_list (map prob_of (filter (\<lambda>b. \<not> cmod (amp b) \<le> thresh) bs))))\<rparr>)
         (filter (\<lambda>b. \<not> cmod (amp b) \<le> thresh) bs)"
  by (simp add: prune_branches_def Let_def foldl_prob not_le)




subsection \<open>Postselection\<close>

lemma foldl_add_shift: "foldl (\<lambda>p b. p + f b) a bs = a + sum_list (map f bs)"
  for a :: real
  by (induction bs arbitrary: a) simp_all

lemma float_sq_bounds: "0 \<le> float_sq x" "float_sq x \<le> x\<^sup>2"
  by (simp_all add: float_sq_def)

lemma sum_list_float_sq_le:
  "sum_list (map (\<lambda>b. float_sq (cmod (amp b))) bs) \<le> sum_list (map prob_of bs)"
  by (induction bs) (simp_all add: prob_of_def add_mono float_sq_bounds)

lemma sum_list_float_sq_nonneg: "0 \<le> sum_list (map (\<lambda>b. float_sq (cmod (amp b))) bs)"
  by (induction bs) (simp_all add: float_sq_bounds)

lemma sum_list_float_sq_pos:
  assumes "b \<in> set bs" and "1 / 2 ^ 1075 < (cmod (amp b))\<^sup>2"
  shows "0 < sum_list (map (\<lambda>b. float_sq (cmod (amp b))) bs)"
  using assms
proof (induction bs)
  case Nil
  then show ?case by simp
next
  case (Cons x xs)
  have nn: "0 \<le> float_sq (cmod (amp x))" "0 \<le> sum_list (map (\<lambda>b. float_sq (cmod (amp b))) xs)"
    by (simp_all add: float_sq_bounds sum_list_float_sq_nonneg)
  show ?case
  proof (cases "b = x")
    case True
    with Cons.prems(2) have eq: "float_sq (cmod (amp x)) = (cmod (amp x))\<^sup>2" by (simp add: float_sq_def)
    have "(0 :: real) < 1 / 2 ^ 1075" by simp
    also from True Cons.prems(2) have "1 / 2 ^ 1075 < (cmod (amp x))\<^sup>2" by (simp only:)
    finally have px: "0 < (cmod (amp x))\<^sup>2" .
    have "0 < float_sq (cmod (amp x))" unfolding eq by (rule px)
    then have "0 < float_sq (cmod (amp x)) + sum_list (map (\<lambda>b. float_sq (cmod (amp b))) xs)"
      using nn(2) by (rule add_pos_nonneg)
    then show ?thesis by simp
  next
    case False
    with Cons have "0 < sum_list (map (\<lambda>b. float_sq (cmod (amp b))) xs)" by simp
    with nn show ?thesis by simp
  qed
qed

lemma prob_le_sum_list: "b \<in> set bs \<Longrightarrow> prob_of b \<le> sum_list (map prob_of bs)"
proof (induction bs)
  case Nil
  then show ?case by simp
next
  case (Cons x xs)
  have nn: "0 \<le> prob_of x" "0 \<le> sum_list (map prob_of xs)"
    by (simp_all add: prob_of_def sum_list_prob_nonneg)
  from Cons show ?case using nn by (cases "b = x") auto
qed

text \<open>
  C10, as stated, fails in two ways although a branch satisfies \<^verbatim>\<open>expr != 0\<close>. Inside an \<^verbatim>\<open>inv\<close>
  scope \<^verbatim>\<open>postselect\<close> raises the \<^verbatim>\<open>SyntaxError\<close> of its guard. And on the state that
  \<^verbatim>\<open>reg({0: 1, 1: 1e-200})\<close> leaves, \<^verbatim>\<open>postselect\<close> of the register keeps the branch with amplitude
  \<open>1e-200\<close>, whose square underflows: \<^verbatim>\<open>prob\<close> is \<open>0.0\<close> and the division raises
  \<^verbatim>\<open>ZeroDivisionError\<close>, after the branch list has been replaced.
\<close>

theorem postselect_raises_on_kept_branch:
  "nonzero (expr_c (const_expr 1) \<lparr>amp = 1, regs = []\<rparr>)
   \<and> postselect (inv_enter init_state) (const_expr 1)
       = Raised (inv_enter init_state) (SyntaxError ''Can only measure at top-level.'')
   \<and> nonzero (expr_c (key_expr key0) \<lparr>amp = 1 / 10 ^ 200, regs = [(0, ES False 1)]\<rparr>)
   \<and> postselect (state_of [\<lparr>amp = 1, regs = [(0, ES False 0)]\<rparr>, \<lparr>amp = 1 / 10 ^ 200, regs = [(0, ES False 1)]\<rparr>])
         (key_expr key0)
       = Raised (state_of [\<lparr>amp = 1 / 10 ^ 200, regs = [(0, ES False 1)]\<rparr>]) ZeroDivisionError"
  by (simp add: postselect_def inv_enter_def push_mode_def float_sq_def eval_defs norm_divide norm_power power_divide)

text \<open>
  C10 (amended): at top level (no \<^verbatim>\<open>inv\<close> scope is open), when a branch satisfies \<^verbatim>\<open>expr != 0\<close>
  with an amplitude whose square does not underflow, and the squares of the kept amplitudes
  stay in the range of a double, \<^verbatim>\<open>postselect\<close> returns as a float the total of
  \<^verbatim>\<open>abs(amp)**2\<close> over the branches it keeps, computed before renormalising (a square that
  underflows counts as 0), and divides the amplitude of each kept branch by exactly the square
  root of that total.
\<close>

theorem postselect_returns_probability:
  assumes top: "mode_stack s = []"
    and b: "b \<in> set (branches s)" "nonzero (expr_c e b)" "1 / 2 ^ 1075 < (cmod (amp b))\<^sup>2"
    and range: "sum_list (map prob_of (filter (\<lambda>x. nonzero (expr_c e x)) (branches s))) < 2 ^ 1024"
  shows "postselect s e =
     Returned
       (s\<lparr>branches :=
            map (\<lambda>x. x\<lparr>amp := amp x /
                   complex_of_real (sqrt (sum_list (map (\<lambda>x. float_sq (cmod (amp x)))
                                            (filter (\<lambda>x. nonzero (expr_c e x)) (branches s)))))\<rparr>)
                (filter (\<lambda>x. nonzero (expr_c e x)) (branches s))\<rparr>)
       (Float (sum_list (map (\<lambda>x. float_sq (cmod (amp x))) (filter (\<lambda>x. nonzero (expr_c e x)) (branches s)))))"
proof -
  let ?kept = "filter (\<lambda>x. nonzero (expr_c e x)) (branches s)"
  let ?P = "sum_list (map (\<lambda>x. float_sq (cmod (amp x))) ?kept)"
  from b have mem: "b \<in> set ?kept" by simp
  from b have ne: "?kept \<noteq> []" by (auto simp: filter_empty_conv)
  from mem b(3) have pos: "0 < ?P" by (rule sum_list_float_sq_pos)
  then have root: "sqrt ?P \<noteq> 0" by simp
  have "?P \<le> sum_list (map prob_of ?kept)" by (rule sum_list_float_sq_le)
  with range have small: "\<not> 2 ^ 1024 \<le> ?P" by simp
  have "\<not> 2 ^ 1024 \<le> (cmod (amp x))\<^sup>2" if "x \<in> set ?kept" for x
  proof -
    from that have "prob_of x \<le> sum_list (map prob_of ?kept)" by (rule prob_le_sum_list)
    with range show ?thesis by (simp add: prob_of_def)
  qed
  then have none: "\<not> list_ex (\<lambda>b. 2 ^ 1024 \<le> (cmod (amp b))\<^sup>2) ?kept"
    unfolding list_ex_iff by blast
  have fold: "foldl (\<lambda>p b. p + float_sq (cmod (amp b))) 0 ?kept = ?P"
    by (simp add: foldl_add_shift)
  show ?thesis
    unfolding postselect_def Let_def fold
    by (simp only: top none ne small root simp_thms if_False if_True)
qed

theorem postselect_returns_probability_witness:
  "mode_stack (state_of [\<lparr>amp = 3 / 5, regs = [(0, ES False 0)]\<rparr>, \<lparr>amp = 4 / 5, regs = [(0, ES False 1)]\<rparr>]) = []
   \<and> \<lparr>amp = 4 / 5, regs = [(0, ES False 1)]\<rparr>
        \<in> set (branches (state_of [\<lparr>amp = 3 / 5, regs = [(0, ES False 0)]\<rparr>, \<lparr>amp = 4 / 5, regs = [(0, ES False 1)]\<rparr>]))
   \<and> nonzero (expr_c (key_expr key0) \<lparr>amp = 4 / 5, regs = [(0, ES False 1)]\<rparr>)
   \<and> postselect (state_of [\<lparr>amp = 3 / 5, regs = [(0, ES False 0)]\<rparr>, \<lparr>amp = 4 / 5, regs = [(0, ES False 1)]\<rparr>]) (key_expr key0)
        = Returned (state_of [\<lparr>amp = 1, regs = [(0, ES False 1)]\<rparr>]) (Float (16 / 25))"
  using postselect_returns_probability
    [of "state_of [\<lparr>amp = 3 / 5, regs = [(0, ES False 0)]\<rparr>, \<lparr>amp = 4 / 5, regs = [(0, ES False 1)]\<rparr>]"
        "\<lparr>amp = 4 / 5, regs = [(0, ES False 1)]\<rparr>" "key_expr key0"]
  by (simp add: eval_defs prob_of_def float_sq_def power2_eq_square real_sqrt_divide)

subsection \<open>Initialisation and its inverse\<close>

text \<open>
  C1 (evaluation at the failing input): with no control and one branch whose register is 0,
  \<^verbatim>\<open>init(key, 5)\<close> writes 5, and \<^verbatim>\<open>init_inv(key, 5)\<close> then succeeds and returns the state it
  was given: the register still holds 5. The round trip does not return to the initial state,
  and \<^verbatim>\<open>init_inv\<close> does not zero the register on success.
\<close>

theorem init_inv_expression_leaves_register:
  "init (state_of [\<lparr>amp = 1, regs = [(0, ES False 0)]\<rparr>]) key0 (QExpr (const_expr 5))
     = Returned (state_of [\<lparr>amp = 1, regs = [(0, ES False 5)]\<rparr>]) ()
   \<and> init_inv (state_of [\<lparr>amp = 1, regs = [(0, ES False 5)]\<rparr>]) key0 (QExpr (const_expr 5))
     = Returned (state_of [\<lparr>amp = 1, regs = [(0, ES False 5)]\<rparr>]) ()"
  by (simp add: init_def init_inv_def eval_defs)

subsection \<open>Uniqueness of branches\<close>

text \<open>
  C5 (evaluation at the failing input): two structurally distinct branches with key values 1
  and 2. \<^verbatim>\<open>perp_init(key, orth, 5)\<close> sets \<open>orth\<close> to 1 on both, which is the precondition of
  \<^verbatim>\<open>perp_init_inv(key, orth, 5)\<close>; that primitive then returns with the key register set to 0
  on both branches, so the two branches of the result agree on every register.
\<close>

theorem perp_init_inv_expression_merges_branches:
  "perp_init_Expression
      (state_of [\<lparr>amp = 3 / 5, regs = [(0, ES False 1), (1, ES False 0)]\<rparr>,
                 \<lparr>amp = 4 / 5, regs = [(0, ES False 2), (1, ES False 0)]\<rparr>]) key0 key1 (const_expr 5)
     = Returned
         (state_of [\<lparr>amp = 3 / 5, regs = [(0, ES False 1), (1, ES False 1)]\<rparr>,
                    \<lparr>amp = 4 / 5, regs = [(0, ES False 2), (1, ES False 1)]\<rparr>]) ()
   \<and> perp_init_inv_Expression
      (state_of [\<lparr>amp = 3 / 5, regs = [(0, ES False 1), (1, ES False 1)]\<rparr>,
                 \<lparr>amp = 4 / 5, regs = [(0, ES False 2), (1, ES False 1)]\<rparr>]) key0 key1 (const_expr 5)
     = Returned
         (state_of [\<lparr>amp = 3 / 5, regs = [(0, ES False 0), (1, ES False 1)]\<rparr>,
                    \<lparr>amp = 4 / 5, regs = [(0, ES False 0), (1, ES False 1)]\<rparr>]) ()
   \<and> \<not> branchesEqual \<lparr>amp = 3 / 5, regs = [(0, ES False 1), (1, ES False 1)]\<rparr>
                      \<lparr>amp = 4 / 5, regs = [(0, ES False 2), (1, ES False 1)]\<rparr>
   \<and> branchesEqual \<lparr>amp = 3 / 5, regs = [(0, ES False 0), (1, ES False 1)]\<rparr>
                    \<lparr>amp = 4 / 5, regs = [(0, ES False 0), (1, ES False 1)]\<rparr>"
  by (simp add: perp_init_Expression_def perp_init_inv_Expression_def branchesEqual_def eval_defs)

subsection \<open>The guard of the Hadamard primitive\<close>

text \<open>
  C9, as stated, fails on a state with an open action queue: inside the body of a \<^verbatim>\<open>q_while\<close>
  (and likewise of an \<^verbatim>\<open>inv\<close> or \<^verbatim>\<open>garbage\<close> scope) \<^verbatim>\<open>had(key, key)\<close> is recorded by
  \<^verbatim>\<open>queue_action\<close> and returns before the guard is reached; nothing is raised.
\<close>

theorem had_recorded_under_open_queue:
  "key_key key0 \<in> expr_keys (key_expr key0)
   \<and> had (q_while_enter (state_of [\<lparr>amp = 1, regs = [(0, ES False 0)]\<rparr>])) key0 (key_expr key0)
     = Returned ((state_of [\<lparr>amp = 1, regs = [(0, ES False 0)]\<rparr>])
                   \<lparr>queue_stack := [[Action ''had'' [AKey key0, AExpr (key_expr key0)]]]\<rparr>) ()"
  by (simp add: had_def q_while_enter_def eval_defs)

text \<open>
  C9 (amended): let the bit expression of \<^verbatim>\<open>had(key, bit)\<close> read \<open>key\<close>. When the call executes,
  that is when no action queue is open, it raises a \<^verbatim>\<open>SyntaxError\<close>, the structural error, and
  the state at the raise is the state it was given; nothing is assumed about the branches or
  the controls, so the guard also fires when no branch is active. When an action queue is open,
  the call is appended to the innermost queue and returns without raising.
\<close>

theorem had_rejects_self_reference:
  assumes "key_key k \<in> expr_keys bit_e"
  shows "(queue_stack s = [] \<longrightarrow> (\<exists>msg. had s k bit_e = Raised s (SyntaxError msg)))
       \<and> (queue_stack s \<noteq> [] \<longrightarrow>
            had s k bit_e
              = Returned (s\<lparr>queue_stack := butlast (queue_stack s)
                               @ [last (queue_stack s) @ [Action ''had'' [AKey k, AExpr bit_e]]]\<rparr>) ())"
  using assms by (simp add: had_def queue_action_def assert_mutable_def)

theorem had_rejects_self_reference_witness:
  "queue_stack ((state_of [\<lparr>amp = 1, regs = [(0, ES False 0)]\<rparr>])\<lparr>controls := [const_expr 0]\<rparr>) = []
   \<and> key_key key0 \<in> expr_keys (key_expr key0)
   \<and> controlled_branches ((state_of [\<lparr>amp = 1, regs = [(0, ES False 0)]\<rparr>])\<lparr>controls := [const_expr 0]\<rparr>) = []
   \<and> (\<exists>msg. had ((state_of [\<lparr>amp = 1, regs = [(0, ES False 0)]\<rparr>])\<lparr>controls := [const_expr 0]\<rparr>) key0 (key_expr key0)
          = Raised ((state_of [\<lparr>amp = 1, regs = [(0, ES False 0)]\<rparr>])\<lparr>controls := [const_expr 0]\<rparr>) (SyntaxError msg))"
  using had_rejects_self_reference
    [of key0 "key_expr key0" "(state_of [\<lparr>amp = 1, regs = [(0, ES False 0)]\<rparr>])\<lparr>controls := [const_expr 0]\<rparr>"]
  by (simp add: eval_defs)

subsection \<open>What state measurement returns\<close>




subsection \<open>Measurement inside reversible scopes\<close>

text \<open>
  C6 (evaluation at the failing inputs): the measurement operations test \<^verbatim>\<open>mode_stack\<close>, and
  only \<^verbatim>\<open>inv\<close> pushes a mode. Right after the \<^verbatim>\<open>__enter__\<close> of a \<^verbatim>\<open>q_while\<close> body, and of a
  keyless \<^verbatim>\<open>garbage\<close> scope, \<^verbatim>\<open>postselect\<close>, \<^verbatim>\<open>measure\<close> and \<^verbatim>\<open>measure_state\<close> run and return; inside
  an \<^verbatim>\<open>inv\<close> scope \<^verbatim>\<open>postselect\<close> raises the \<^verbatim>\<open>SyntaxError\<close>.
\<close>

theorem measurement_inside_while_and_garbage:
  "postselect (q_while_enter init_state) (const_expr 1) = Returned (q_while_enter init_state) (Float 1)
   \<and> measure_op (q_while_enter init_state) [] (1 / 2) = Returned (q_while_enter init_state) []
   \<and> measure_state (q_while_enter (state_of [\<lparr>amp = 1, regs = [(0, ES False 0)]\<rparr>])) key0 (QExpr (const_expr 0)) None (1 / 2)
       = Returned (q_while_enter (state_of [\<lparr>amp = 1, regs = [(0, ES False 0)]\<rparr>])) (Outcome True)
   \<and> garbage_enter init_state None
       = Returned (init_state\<lparr>garbage_stack := [''keyless''], keyless_piles := [[]], queue_stack := [[]]\<rparr>) ()
   \<and> postselect (init_state\<lparr>garbage_stack := [''keyless''], keyless_piles := [[]], queue_stack := [[]]\<rparr>) (const_expr 1)
       = Returned (init_state\<lparr>garbage_stack := [''keyless''], keyless_piles := [[]], queue_stack := [[]]\<rparr>) (Float 1)
   \<and> postselect (inv_enter init_state) (const_expr 1)
       = Raised (inv_enter init_state) (SyntaxError ''Can only measure at top-level.'')"
  by (simp add: postselect_def float_sq_def measure_op_def dist_def q_while_enter_def garbage_enter_def inv_enter_def push_mode_def
        measure_state_def ms_finish_def ms_outcome_def ms_renorm_def ms_return_def ms_expr_prob_def
        all_have_def the_reg_def prob_of_def eval_defs)

subsection \<open>CNOT on the store of register objects\<close>

lemma map_of_deref: "map_of (map (\<lambda>(q, a). (q, f a)) xs) r = map_option f (map_of xs r)"
  by (induction xs) auto

lemma deref_update_other:
  "a \<notin> snd ` set xs \<Longrightarrow> map (\<lambda>(q, b). (q, objs[a := x] ! b)) xs = map (\<lambda>(q, b). (q, objs ! b)) xs"
  by (induction xs) auto

lemma deref_update_self:
  "distinct (map fst xs) \<Longrightarrow> map_of xs r = Some a \<Longrightarrow> a < length objs \<Longrightarrow>
   \<forall>(q, a')\<in>set xs. q \<noteq> r \<longrightarrow> a' \<noteq> a \<Longrightarrow>
   map (\<lambda>(q, b). (q, objs[a := x] ! b)) xs = AList.update r x (map (\<lambda>(q, b). (q, objs ! b)) xs)"
proof (induction xs)
  case Nil
  then show ?case by simp
next
  case (Cons p xs)
  obtain q b where p: "p = (q, b)" by (cases p)
  show ?case
  proof (cases "q = r")
    case True
    with Cons.prems p have b: "b = a" by simp
    from Cons.prems p True have "r \<notin> fst ` set xs" by auto
    with Cons.prems p True have "a \<notin> snd ` set xs" by force
    then have "map (\<lambda>(q, b). (q, objs[a := x] ! b)) xs = map (\<lambda>(q, b). (q, objs ! b)) xs"
      by (rule deref_update_other)
    with p True b Cons.prems(3) show ?thesis by simp
  next
    case False
    with Cons.prems p have "b \<noteq> a" by auto
    moreover from Cons.prems p False
    have "map (\<lambda>(q, b). (q, objs[a := x] ! b)) xs = AList.update r x (map (\<lambda>(q, b). (q, objs ! b)) xs)"
      by (intro Cons.IH) auto
    ultimately show ?thesis using p False by simp
  qed
qed

lemma reg_view: "reg (view objs ob) r = map_option (\<lambda>a. objs ! a) (map_of (obj_regs ob) r)"
  by (simp add: reg_def view_def map_of_deref)

lemma the_reg_view: "map_of (obj_regs ob) r = Some a \<Longrightarrow> the_reg (view objs ob) r = objs ! a"
  by (simp add: the_reg_def reg_view)

lemma view_update_other: "a \<notin> snd ` set (obj_regs ob) \<Longrightarrow> view (objs[a := x]) ob = view objs ob"
  by (simp add: view_def deref_update_other)

lemma view_update_self:
  "distinct (map fst (obj_regs ob)) \<Longrightarrow> map_of (obj_regs ob) r = Some a \<Longrightarrow> a < length objs \<Longrightarrow>
   \<forall>(q, a')\<in>set (obj_regs ob). q \<noteq> r \<longrightarrow> a' \<noteq> a \<Longrightarrow>
   view (objs[a := x]) ob = setreg (view objs ob) r x"
  by (simp add: view_def setreg_def deref_update_self)

lemma setreg_same: "reg b r = Some v \<Longrightarrow> setreg b r v = b"
  by (simp add: setreg_def reg_def update_triv)

lemma the_reg_setreg: "the_reg (setreg b r x) r = x"
  by (simp add: the_reg_def reg_def setreg_def update_conv')

lemma own_objects_Cons:
  assumes "own_objects r (ob # act) objs"
  shows "own_objects r act (objs[key_addr r ob := x])"
    and "own_objects r act objs"
    and "\<forall>ob'\<in>set act. view (objs[key_addr r ob := x]) ob' = view objs ob'"
    and "key_addr r ob \<notin> key_addr r ` set act"
    and "map_of (obj_regs ob) r = Some (key_addr r ob)"
    and "key_addr r ob < length objs"
proof -
  from assms have d: "distinct (map (key_addr r) (ob # act))"
    and per: "\<And>ob'. ob' \<in> set (ob # act) \<Longrightarrow>
          distinct (map fst (obj_regs ob')) \<and> map_of (obj_regs ob') r \<noteq> None
          \<and> key_addr r ob' < length objs
          \<and> (\<forall>(q, a)\<in>set (obj_regs ob'). q \<noteq> r \<longrightarrow> a \<notin> key_addr r ` set (ob # act))"
    unfolding own_objects_def by blast+
  have sub: "\<And>a. a \<notin> key_addr r ` set (ob # act) \<Longrightarrow> a \<notin> key_addr r ` set act" by auto
  have per': "\<And>ob'. ob' \<in> set act \<Longrightarrow>
          distinct (map fst (obj_regs ob')) \<and> map_of (obj_regs ob') r \<noteq> None
          \<and> key_addr r ob' < length objs
          \<and> (\<forall>(q, a)\<in>set (obj_regs ob'). q \<noteq> r \<longrightarrow> a \<notin> key_addr r ` set act)"
  proof -
    fix ob' assume "ob' \<in> set act"
    then have "ob' \<in> set (ob # act)" by simp
    from per [OF this] sub show "distinct (map fst (obj_regs ob')) \<and> map_of (obj_regs ob') r \<noteq> None
          \<and> key_addr r ob' < length objs
          \<and> (\<forall>(q, a)\<in>set (obj_regs ob'). q \<noteq> r \<longrightarrow> a \<notin> key_addr r ` set act)"
      by fast
  qed
  from d have d': "distinct (map (key_addr r) act)" by simp
  from d' per' show o2: "own_objects r act objs"
    unfolding own_objects_def by blast
  have "length (objs[key_addr r ob := x]) = length objs" by simp
  with d' per' show "own_objects r act (objs[key_addr r ob := x])"
    unfolding own_objects_def by metis
  from d show na: "key_addr r ob \<notin> key_addr r ` set act"
    by simp
  from per [of ob] show "map_of (obj_regs ob) r = Some (key_addr r ob)"
    by (auto simp: key_addr_def)
  from per [of ob] show "key_addr r ob < length objs"
    by simp
  show "\<forall>ob'\<in>set act. view (objs[key_addr r ob := x]) ob' = view objs ob'"
  proof
    fix ob' assume mem: "ob' \<in> set act"
    have "key_addr r ob \<notin> snd ` set (obj_regs ob')"
    proof
      assume "key_addr r ob \<in> snd ` set (obj_regs ob')"
      then obtain q where q: "(q, key_addr r ob) \<in> set (obj_regs ob')" by force
      from assms mem have d: "distinct (map fst (obj_regs ob'))"
        and oth: "\<forall>(q, a)\<in>set (obj_regs ob'). q \<noteq> r \<longrightarrow> a \<notin> key_addr r ` set (ob # act)"
        by (auto simp: own_objects_def)
      show False
      proof (cases "q = r")
        case True
        with q d have "map_of (obj_regs ob') r = Some (key_addr r ob)" by simp
        then have "key_addr r ob' = key_addr r ob" by (simp add: key_addr_def)
        with na mem show False by (metis imageI)
      next
        case False
        with q oth show False by auto
      qed
    qed
    then show "view (objs[key_addr r ob := x]) ob' = view objs ob'"
      by (rule view_update_other)
  qed
qed

lemma cnot_loop_step:
  assumes ne: "\<not> py_eq (expr_c idx1 (view objs ob)) (expr_c idx2 (view objs ob))"
    and v1: "bit_index (expr_c idx1 (view objs ob)) \<noteq> None"
    and v2: "bit_index (expr_c idx2 (view objs ob)) \<noteq> None"
    and a: "map_of (obj_regs ob) r = Some a"
  shows "cnot_loop r idx1 idx2 (ob # act) objs
       = cnot_loop r idx1 idx2 act (objs[a := the_reg (cnot_branch r idx1 idx2 (view objs ob)) r])"
proof -
  from v1 obtain n1 where n1: "bit_index (expr_c idx1 (view objs ob)) = Some n1" by auto
  from v2 obtain n2 where n2: "bit_index (expr_c idx2 (view objs ob)) = Some n2" by auto
  from a have tr: "the_reg (view objs ob) r = objs ! a" by (rule the_reg_view)
  show ?thesis
    using ne n1 n2 a tr by (simp add: cnot_branch_def the_reg_setreg)
qed

lemma cnot_loop_spec:
  assumes own: "own_objects r act objs"
    and valid: "\<forall>ob\<in>set act. \<not> py_eq (expr_c idx1 (view objs ob)) (expr_c idx2 (view objs ob)) \<longrightarrow>
                  bit_index (expr_c idx1 (view objs ob)) \<noteq> None \<and> bit_index (expr_c idx2 (view objs ob)) \<noteq> None"
  shows "if \<exists>ob\<in>set act. py_eq (expr_c idx1 (view objs ob)) (expr_c idx2 (view objs ob))
         then snd (cnot_loop r idx1 idx2 act objs) = Some (ValueError ''Can't perform CNOT from index to itself.'')
         else snd (cnot_loop r idx1 idx2 act objs) = None
            \<and> length (fst (cnot_loop r idx1 idx2 act objs)) = length objs
            \<and> (\<forall>a. a \<notin> key_addr r ` set act \<longrightarrow> fst (cnot_loop r idx1 idx2 act objs) ! a = objs ! a)
            \<and> (\<forall>ob\<in>set act. fst (cnot_loop r idx1 idx2 act objs) ! key_addr r ob
                   = the_reg (cnot_branch r idx1 idx2 (view objs ob)) r)"
  using own valid
proof (induction act arbitrary: objs)
  case Nil
  then show ?case by simp
next
  case (Cons ob act)
  let ?a = "key_addr r ob"
  let ?nv = "the_reg (cnot_branch r idx1 idx2 (view objs ob)) r"
  let ?objs1 = "objs[?a := ?nv]"
  note own1 = own_objects_Cons(1) [OF Cons.prems(1), where x = ?nv]
  note own3 = own_objects_Cons(3) [OF Cons.prems(1), where x = ?nv]
  note own4 = own_objects_Cons(4) [OF Cons.prems(1)]
  note own5 = own_objects_Cons(5) [OF Cons.prems(1)]
  note own6 = own_objects_Cons(6) [OF Cons.prems(1)]
  show ?case
  proof (cases "py_eq (expr_c idx1 (view objs ob)) (expr_c idx2 (view objs ob))")
    case True
    then show ?thesis by simp
  next
    case False
    with Cons.prems(2) have v: "bit_index (expr_c idx1 (view objs ob)) \<noteq> None"
      "bit_index (expr_c idx2 (view objs ob)) \<noteq> None" by simp_all
    have step: "cnot_loop r idx1 idx2 (ob # act) objs = cnot_loop r idx1 idx2 act ?objs1"
      using False v own5 by (rule cnot_loop_step)
    have views: "\<And>ob'. ob' \<in> set act \<Longrightarrow> view ?objs1 ob' = view objs ob'"
      using own3 by blast
    have valid1: "\<forall>ob'\<in>set act. \<not> py_eq (expr_c idx1 (view ?objs1 ob')) (expr_c idx2 (view ?objs1 ob')) \<longrightarrow>
                  bit_index (expr_c idx1 (view ?objs1 ob')) \<noteq> None \<and> bit_index (expr_c idx2 (view ?objs1 ob')) \<noteq> None"
      using Cons.prems(2) views by simp
    note IH = Cons.IH [OF own1 valid1]
    show ?thesis
    proof (cases "\<exists>ob'\<in>set act. py_eq (expr_c idx1 (view objs ob')) (expr_c idx2 (view objs ob'))")
      case True
      then have "\<exists>ob'\<in>set act. py_eq (expr_c idx1 (view ?objs1 ob')) (expr_c idx2 (view ?objs1 ob'))"
        using views by auto
      with IH have "snd (cnot_loop r idx1 idx2 act ?objs1) = Some (ValueError ''Can't perform CNOT from index to itself.'')"
        by (simp only: if_True)
      with step True show ?thesis by auto
    next
      case none: False
      then have neg: "\<not> (\<exists>ob'\<in>set act. py_eq (expr_c idx1 (view ?objs1 ob')) (expr_c idx2 (view ?objs1 ob')))"
        using views by auto
      have res: "snd (cnot_loop r idx1 idx2 act ?objs1) = None
            \<and> length (fst (cnot_loop r idx1 idx2 act ?objs1)) = length ?objs1
            \<and> (\<forall>a. a \<notin> key_addr r ` set act \<longrightarrow> fst (cnot_loop r idx1 idx2 act ?objs1) ! a = ?objs1 ! a)
            \<and> (\<forall>ob\<in>set act. fst (cnot_loop r idx1 idx2 act ?objs1) ! key_addr r ob
                   = the_reg (cnot_branch r idx1 idx2 (view ?objs1 ob)) r)"
        using IH unfolding if_not_P [OF neg] .
      from res have r1: "snd (cnot_loop r idx1 idx2 act ?objs1) = None"
        and r2: "length (fst (cnot_loop r idx1 idx2 act ?objs1)) = length ?objs1"
        and r3: "\<And>a. a \<notin> key_addr r ` set act \<Longrightarrow> fst (cnot_loop r idx1 idx2 act ?objs1) ! a = ?objs1 ! a"
        and r4: "\<And>ob'. ob' \<in> set act \<Longrightarrow> fst (cnot_loop r idx1 idx2 act ?objs1) ! key_addr r ob'
                   = the_reg (cnot_branch r idx1 idx2 (view ?objs1 ob')) r"
        by blast+
      have c3: "\<forall>a. a \<notin> key_addr r ` set (ob # act) \<longrightarrow> fst (cnot_loop r idx1 idx2 act ?objs1) ! a = objs ! a"
        using r3 by auto
      have c4a: "fst (cnot_loop r idx1 idx2 act ?objs1) ! ?a = ?nv"
        using r3 [OF own4] own6 by simp
      have c4: "\<forall>ob'\<in>set (ob # act). fst (cnot_loop r idx1 idx2 act ?objs1) ! key_addr r ob'
                   = the_reg (cnot_branch r idx1 idx2 (view objs ob')) r"
        using c4a r4 views by simp
      from False none have "\<not> (\<exists>ob'\<in>set (ob # act). py_eq (expr_c idx1 (view objs ob')) (expr_c idx2 (view objs ob')))"
        by simp
      with r1 r2 c3 c4 show ?thesis unfolding step by simp
    qed
  qed
qed

lemma deref_agree:
  "distinct (map fst xs) \<Longrightarrow> map_of xs r = Some a \<Longrightarrow>
   \<forall>(q, a')\<in>set xs. q \<noteq> r \<longrightarrow> objs' ! a' = objs ! a' \<Longrightarrow>
   map (\<lambda>(q, b). (q, objs' ! b)) xs = AList.update r (objs' ! a) (map (\<lambda>(q, b). (q, objs ! b)) xs)"
proof (induction xs)
  case Nil
  then show ?case by simp
next
  case (Cons p xs)
  obtain q b where p: "p = (q, b)" by (cases p)
  show ?case
  proof (cases "q = r")
    case True
    with Cons.prems p have b: "b = a" by simp
    from Cons.prems p True have nr: "r \<notin> fst ` set xs" by auto
    have "map (\<lambda>(q, b). (q, objs' ! b)) xs = map (\<lambda>(q, b). (q, objs ! b)) xs"
    proof (rule map_cong [OF refl])
      fix x assume x: "x \<in> set xs"
      with nr have "fst x \<noteq> r" by auto
      with Cons.prems(3) x show "(case x of (q, b) \<Rightarrow> (q, objs' ! b)) = (case x of (q, b) \<Rightarrow> (q, objs ! b))"
        by (cases x) auto
    qed
    with p True b show ?thesis by simp
  next
    case False
    with Cons.prems p have "objs' ! b = objs ! b" by auto
    moreover from Cons.prems p False
    have "map (\<lambda>(q, b). (q, objs' ! b)) xs = AList.update r (objs' ! a) (map (\<lambda>(q, b). (q, objs ! b)) xs)"
      by (intro Cons.IH) auto
    ultimately show ?thesis using p False by simp
  qed
qed

lemma view_agree:
  assumes "distinct (map fst (obj_regs ob))" and "map_of (obj_regs ob) r = Some a"
    and "\<forall>(q, a')\<in>set (obj_regs ob). q \<noteq> r \<longrightarrow> objs' ! a' = objs ! a'"
  shows "view objs' ob = setreg (view objs ob) r (objs' ! a)"
  using assms by (simp add: view_def setreg_def deref_agree)

lemma setreg_cnot_branch:
  assumes "reg b r \<noteq> None"
  shows "setreg b r (the_reg (cnot_branch r idx1 idx2 b) r) = cnot_branch r idx1 idx2 b"
proof -
  from assms obtain v where v: "reg b r = Some v" by auto
  then have same: "setreg b r (the_reg b r) = b"
    by (simp add: the_reg_def setreg_same)
  show ?thesis
    by (auto simp: cnot_branch_def the_reg_setreg same split: option.splits)
qed

lemma unshared_own:
  assumes "unshared r s"
  shows "own_objects r (filter P (obj_branches s)) (objects s)"
proof -
  from assms have d: "distinct (map (key_addr r) (obj_branches s))"
    and per: "\<And>ob. ob \<in> set (obj_branches s) \<Longrightarrow>
        distinct (map fst (obj_regs ob)) \<and> map_of (obj_regs ob) r \<noteq> None \<and> key_addr r ob < length (objects s)
        \<and> (\<forall>(q, a)\<in>set (obj_regs ob). q = r \<or> a \<notin> key_addr r ` set (obj_branches s))"
    unfolding unshared_def list_all_iff by blast+
  from d have d': "distinct (map (key_addr r) (filter P (obj_branches s)))"
    by (simp add: distinct_map_filter)
  have "\<And>ob. ob \<in> set (filter P (obj_branches s)) \<Longrightarrow>
        distinct (map fst (obj_regs ob)) \<and> map_of (obj_regs ob) r \<noteq> None \<and> key_addr r ob < length (objects s)
        \<and> (\<forall>(q, a)\<in>set (obj_regs ob). q \<noteq> r \<longrightarrow> a \<notin> key_addr r ` set (filter P (obj_branches s)))"
  proof -
    fix ob assume "ob \<in> set (filter P (obj_branches s))"
    then have "ob \<in> set (obj_branches s)" by simp
    from per [OF this] show "distinct (map fst (obj_regs ob)) \<and> map_of (obj_regs ob) r \<noteq> None \<and> key_addr r ob < length (objects s)
        \<and> (\<forall>(q, a)\<in>set (obj_regs ob). q \<noteq> r \<longrightarrow> a \<notin> key_addr r ` set (filter P (obj_branches s)))"
      by fastforce
  qed
  with d' show ?thesis unfolding own_objects_def by blast
qed

text \<open>
  C7, as stated, fails on the kind of the error and on when it is raised: with equal indices on
  an active branch \<^verbatim>\<open>cnot\<close> raises a \<^verbatim>\<open>ValueError\<close>, which is not the structural error
  (\<^verbatim>\<open>SyntaxError\<close>); and when the control leaves no active branch, it returns without an error
  although the two indices are equal.
\<close>

theorem cnot_equal_indices_error:
  "snd (cnot \<lparr>objects = [ES False 1], obj_branches = [\<lparr>obj_amp = 1, obj_regs = [(0, 0)]\<rparr>],
              obj_controls = [], obj_queue_stack = []\<rparr> key0 (const_expr 0) (const_expr 0))
     = Some (ValueError ''Can't perform CNOT from index to itself.'')
   \<and> cnot \<lparr>objects = [ES False 1], obj_branches = [\<lparr>obj_amp = 1, obj_regs = [(0, 0)]\<rparr>],
              obj_controls = [const_expr 0], obj_queue_stack = []\<rparr> key0 (const_expr 0) (const_expr 0)
     = (\<lparr>objects = [ES False 1], obj_branches = [\<lparr>obj_amp = 1, obj_regs = [(0, 0)]\<rparr>],
              obj_controls = [const_expr 0], obj_queue_stack = []\<rparr>, None)"
  by (simp add: cnot_def view_state_def view_def eval_defs bit_eval)

text \<open>
  C7 (amended): let \<^verbatim>\<open>cnot(key, i, j)\<close> execute (no open queue, \<open>key\<close> read by no control nor by
  the index expressions) on a state in which every branch holds its own object for the key
  register, referred to by no other register, and let the indices be bit positions on the
  active branches where they differ. If the two indices evaluate equal on some active branch,
  \<^verbatim>\<open>cnot\<close> raises the \<^verbatim>\<open>ValueError\<close>. Otherwise it returns, and has flipped bit \<open>j\<close> of the key
  register exactly on the active branches whose bit \<open>i\<close> is 1; every other register and every
  frozen branch is as before.
\<close>

theorem cnot_on_unshared_state:
  assumes queue: "obj_queue_stack s = []"
    and mut: "assert_mutable (view_state s) k = None"
    and keys: "key_key k \<notin> expr_keys idx1" "key_key k \<notin> expr_keys idx2"
    and un: "unshared (key_index k) s"
    and valid: "\<forall>ob\<in>set (obj_branches s).
        goodbranch (obj_controls s) (view (objects s) ob)
        \<and> \<not> py_eq (expr_c idx1 (view (objects s) ob)) (expr_c idx2 (view (objects s) ob)) \<longrightarrow>
        bit_index (expr_c idx1 (view (objects s) ob)) \<noteq> None \<and> bit_index (expr_c idx2 (view (objects s) ob)) \<noteq> None"
  shows "if \<exists>ob\<in>set (obj_branches s).
              goodbranch (obj_controls s) (view (objects s) ob)
              \<and> py_eq (expr_c idx1 (view (objects s) ob)) (expr_c idx2 (view (objects s) ob))
         then snd (cnot s k idx1 idx2) = Some (ValueError ''Can't perform CNOT from index to itself.'')
         else snd (cnot s k idx1 idx2) = None
            \<and> obj_branches (fst (cnot s k idx1 idx2)) = obj_branches s
            \<and> map (view (objects (fst (cnot s k idx1 idx2)))) (obj_branches s)
                = map (\<lambda>ob. if goodbranch (obj_controls s) (view (objects s) ob)
                             then cnot_branch (key_index k) idx1 idx2 (view (objects s) ob)
                             else view (objects s) ob) (obj_branches s)"
proof -
  let ?r = "key_index k"
  let ?P = "\<lambda>ob. goodbranch (obj_controls s) (view (objects s) ob)"
  let ?act = "filter ?P (obj_branches s)"
  let ?loop = "cnot_loop ?r idx1 idx2 ?act (objects s)"
  have run: "cnot s k idx1 idx2 = (s\<lparr>objects := fst ?loop\<rparr>, snd ?loop)"
    using queue mut keys
    by (simp add: cnot_def queue_action_def view_state_def split_def)
  have own: "own_objects ?r ?act (objects s)"
    using un by (rule unshared_own)
  have valid': "\<forall>ob\<in>set ?act. \<not> py_eq (expr_c idx1 (view (objects s) ob)) (expr_c idx2 (view (objects s) ob)) \<longrightarrow>
        bit_index (expr_c idx1 (view (objects s) ob)) \<noteq> None \<and> bit_index (expr_c idx2 (view (objects s) ob)) \<noteq> None"
    using valid by simp
  note spec = cnot_loop_spec [OF own valid']
  show ?thesis
  proof (cases "\<exists>ob\<in>set (obj_branches s). ?P ob \<and> py_eq (expr_c idx1 (view (objects s) ob)) (expr_c idx2 (view (objects s) ob))")
    case True
    then have ex: "\<exists>ob\<in>set ?act. py_eq (expr_c idx1 (view (objects s) ob)) (expr_c idx2 (view (objects s) ob))"
      by auto
    have "snd ?loop = Some (ValueError ''Can't perform CNOT from index to itself.'')"
      using spec unfolding if_P [OF ex] .
    with True show ?thesis by (simp add: run)
  next
    case False
    then have nex: "\<not> (\<exists>ob\<in>set ?act. py_eq (expr_c idx1 (view (objects s) ob)) (expr_c idx2 (view (objects s) ob)))"
      by auto
    have res: "snd ?loop = None
            \<and> length (fst ?loop) = length (objects s)
            \<and> (\<forall>a. a \<notin> key_addr ?r ` set ?act \<longrightarrow> fst ?loop ! a = objects s ! a)
            \<and> (\<forall>ob\<in>set ?act. fst ?loop ! key_addr ?r ob = the_reg (cnot_branch ?r idx1 idx2 (view (objects s) ob)) ?r)"
      using spec unfolding if_not_P [OF nex] .
    then have r1: "snd ?loop = None"
      and r3: "\<And>a. a \<notin> key_addr ?r ` set ?act \<Longrightarrow> fst ?loop ! a = objects s ! a"
      and r4: "\<And>ob. ob \<in> set ?act \<Longrightarrow> fst ?loop ! key_addr ?r ob = the_reg (cnot_branch ?r idx1 idx2 (view (objects s) ob)) ?r"
      by blast+
    from un have d: "distinct (map (key_addr ?r) (obj_branches s))"
      and per: "\<And>ob. ob \<in> set (obj_branches s) \<Longrightarrow>
        distinct (map fst (obj_regs ob)) \<and> map_of (obj_regs ob) ?r \<noteq> None
        \<and> (\<forall>(q, a)\<in>set (obj_regs ob). q = ?r \<or> a \<notin> key_addr ?r ` set (obj_branches s))"
      unfolding unshared_def list_all_iff by blast+
    have each: "view (fst ?loop) ob = (if ?P ob then cnot_branch ?r idx1 idx2 (view (objects s) ob) else view (objects s) ob)"
      if mem: "ob \<in> set (obj_branches s)" for ob
    proof -
      from per [OF mem] have df: "distinct (map fst (obj_regs ob))"
        and ka: "map_of (obj_regs ob) ?r = Some (key_addr ?r ob)"
        and oth: "\<forall>(q, a)\<in>set (obj_regs ob). q = ?r \<or> a \<notin> key_addr ?r ` set (obj_branches s)"
        by (auto simp: key_addr_def)
      have agree: "\<forall>(q, a')\<in>set (obj_regs ob). q \<noteq> ?r \<longrightarrow> fst ?loop ! a' = objects s ! a'"
      proof (clarify)
        fix q a' assume "(q, a') \<in> set (obj_regs ob)" "q \<noteq> ?r"
        with oth have "a' \<notin> key_addr ?r ` set (obj_branches s)" by auto
        then have "a' \<notin> key_addr ?r ` set ?act" by auto
        then show "fst ?loop ! a' = objects s ! a'" by (rule r3)
      qed
      have v: "view (fst ?loop) ob = setreg (view (objects s) ob) ?r (fst ?loop ! key_addr ?r ob)"
        using df ka agree by (rule view_agree)
      have rg: "reg (view (objects s) ob) ?r = Some (objects s ! key_addr ?r ob)"
        using ka by (simp add: reg_view)
      show ?thesis
      proof (cases "?P ob")
        case True
        with mem have "ob \<in> set ?act" by simp
        from r4 [OF this] v have "view (fst ?loop) ob
            = setreg (view (objects s) ob) ?r (the_reg (cnot_branch ?r idx1 idx2 (view (objects s) ob)) ?r)"
          by simp
        also have "\<dots> = cnot_branch ?r idx1 idx2 (view (objects s) ob)"
          using rg by (intro setreg_cnot_branch) simp
        finally show ?thesis using True by simp
      next
        case False
        have "key_addr ?r ob \<notin> key_addr ?r ` set ?act"
        proof
          assume "key_addr ?r ob \<in> key_addr ?r ` set ?act"
          then obtain ob' where ob': "ob' \<in> set ?act" "key_addr ?r ob' = key_addr ?r ob" by auto
          from d have "inj_on (key_addr ?r) (set (obj_branches s))" by (simp add: distinct_map)
          with ob' mem have "ob' = ob" by (auto dest: inj_onD)
          with ob' False show False by simp
        qed
        then have "fst ?loop ! key_addr ?r ob = objects s ! key_addr ?r ob" by (rule r3)
        with v rg have "view (fst ?loop) ob = view (objects s) ob"
          by (simp add: setreg_same)
        with False show ?thesis by simp
      qed
    qed
    have "map (view (fst ?loop)) (obj_branches s)
        = map (\<lambda>ob. if ?P ob then cnot_branch ?r idx1 idx2 (view (objects s) ob) else view (objects s) ob) (obj_branches s)"
      by (rule map_cong [OF refl]) (rule each)
    with r1 False show ?thesis by (simp add: run)
  qed
qed

theorem cnot_on_unshared_state_witness:
  "unshared (key_index key0) own_example
   \<and> snd (cnot own_example key0 (const_expr 0) (const_expr 1)) = None
   \<and> map (view (objects (fst (cnot own_example key0 (const_expr 0) (const_expr 1))))) (obj_branches own_example)
       = [\<lparr>amp = 3 / 5, regs = [(0, ES False 3), (1, ES False 1)]\<rparr>,
          \<lparr>amp = 4 / 5, regs = [(0, ES False 1), (1, ES False 0)]\<rparr>]"
proof -
  have un: "unshared (key_index key0) own_example"
    by (simp add: unshared_def own_example_def key_addr_def key0_def)
  have rest: "obj_queue_stack own_example = []" "assert_mutable (view_state own_example) key0 = None"
    "key_key key0 \<notin> expr_keys (const_expr 0)" "key_key key0 \<notin> expr_keys (const_expr 1)"
    by (simp_all add: own_example_def view_state_def eval_defs)
  have valid: "\<forall>ob\<in>set (obj_branches own_example).
        goodbranch (obj_controls own_example) (view (objects own_example) ob)
        \<and> \<not> py_eq (expr_c (const_expr 0) (view (objects own_example) ob)) (expr_c (const_expr 1) (view (objects own_example) ob)) \<longrightarrow>
        bit_index (expr_c (const_expr 0) (view (objects own_example) ob)) \<noteq> None
        \<and> bit_index (expr_c (const_expr 1) (view (objects own_example) ob)) \<noteq> None"
    by (simp add: own_example_def eval_defs bit_eval)
  from cnot_on_unshared_state [OF rest un valid] un show ?thesis
    by (simp add: own_example_def view_def cnot_branch_def the_reg_def eval_defs bit_eval)
qed

text \<open>
  Without the hypothesis on the objects the flip is lost: the list arm of \<^verbatim>\<open>init\<close> on register 1
  leaves two branches that hold the same object for register 0, and \<^verbatim>\<open>cnot\<close> on register 0
  then flips bit 1 of that one object twice, once per branch, so that the register is 1 on
  both branches as before, not 3.
\<close>

lemma cnot_on_shared_object:
  "obj_init_list_loop [] 1 [LInt 0, LInt 1] [\<lparr>obj_amp = 1, obj_regs = [(0, 0), (1, 1)]\<rparr>] [ES False 1, ES False 0]
     = ([\<lparr>obj_amp = 1 / complex_of_real (sqrt 2), obj_regs = [(0, 0), (1, 2)]\<rparr>,
         \<lparr>obj_amp = 1 / complex_of_real (sqrt 2), obj_regs = [(0, 0), (1, 3)]\<rparr>],
        [ES False 1, ES False 0, ES False 0, ES False 1])"
  "cnot \<lparr>objects = [ES False 1, ES False 0, ES False 0, ES False 1],
         obj_branches = [\<lparr>obj_amp = 1 / complex_of_real (sqrt 2), obj_regs = [(0, 0), (1, 2)]\<rparr>,
                         \<lparr>obj_amp = 1 / complex_of_real (sqrt 2), obj_regs = [(0, 0), (1, 3)]\<rparr>],
         obj_controls = [], obj_queue_stack = []\<rparr> key0 (const_expr 0) (const_expr 1)
     = (\<lparr>objects = [ES False 1, ES False 0, ES False 0, ES False 1],
         obj_branches = [\<lparr>obj_amp = 1 / complex_of_real (sqrt 2), obj_regs = [(0, 0), (1, 2)]\<rparr>,
                         \<lparr>obj_amp = 1 / complex_of_real (sqrt 2), obj_regs = [(0, 0), (1, 3)]\<rparr>],
         obj_controls = [], obj_queue_stack = []\<rparr>, None)"
  by (simp_all add: cnot_def view_state_def view_def eval_defs bit_eval)

subsection \<open>Control confinement\<close>

lemma foldl_insert_map:
  "foldl (\<lambda>new x. insert_branch x new) new (map f is) = foldl (\<lambda>new i. insert_branch (f i) new) new is"
  by (induction "is" arbitrary: new) simp_all

lemma had_loop_merge:
  "had_loop ctrls k bit_e bs new = merge_loop (goodbranch ctrls) (had_derive k bit_e) bs new"
proof (induction bs arbitrary: new)
  case Nil
  show ?case by simp
next
  case (Cons b bs)
  show ?case
  proof (cases "goodbranch ctrls b")
    case False
    then show ?thesis by (simp add: Cons.IH)
  next
    case True
    show ?thesis
    proof (cases "reg b (key_index k)")
      case None
      with True show ?thesis by (simp add: had_derive_def)
    next
      case (Some v)
      show ?thesis
      proof (cases "bit_index (expr_c bit_e b)")
        case None
        with True Some show ?thesis by (simp add: had_derive_def)
      next
        case (Some idx)
        with True \<open>reg b (key_index k) = Some v\<close> show ?thesis
          by (simp add: had_derive_def Cons.IH Let_def)
      qed
    qed
  qed
qed


lemma qft_loop_merge:
  "qft_loop ctrls k d fl bs new = merge_loop (goodbranch ctrls) (qft_derive k d fl) bs new"
proof (induction bs arbitrary: new)
  case Nil
  show ?case by simp
next
  case (Cons b bs)
  show ?case
  proof (cases "goodbranch ctrls b")
    case False
    show ?thesis by (simp only: qft_loop.simps merge_loop.simps if_P [OF False] Cons.IH)
  next
    case True
    show ?thesis
    proof (cases "to_real (expr_c d b) \<noteq> real_of_int \<lfloor>to_real (expr_c d b)\<rfloor> \<or> \<lfloor>to_real (expr_c d b)\<rfloor> \<le> 1")
      case bad: True
      have l: "qft_loop ctrls k d fl (b # bs) new = Inl (ValueError ''QFT must be over a positive integer'')"
        by (simp only: qft_loop.simps Let_def True not_True_eq_False if_False if_P [OF bad])
      have r: "qft_derive k d fl b = Inl (ValueError ''QFT must be over a positive integer'')"
        by (simp only: qft_derive_def Let_def if_P [OF bad])
      show ?thesis
        by (simp only: l merge_loop.simps True not_True_eq_False if_False r sum.case)
    next
      case ok: False
      have l: "qft_loop ctrls k d fl (b # bs) new =
          (case reg b (key_index k) of
             None \<Rightarrow> Inl KeyError
           | Some v \<Rightarrow>
               qft_loop ctrls k d fl bs
                 (foldl (\<lambda>new i. insert_branch (qft_branch k fl b v \<lfloor>to_real (expr_c d b)\<rfloor> (int i)) new)
                    new [0 ..< nat \<lfloor>to_real (expr_c d b)\<rfloor>]))"
        by (simp only: qft_loop.simps Let_def True not_True_eq_False if_False if_not_P [OF ok])
      have r: "qft_derive k d fl b =
          (case reg b (key_index k) of
             None \<Rightarrow> Inl KeyError
           | Some v \<Rightarrow> Inr (map (\<lambda>i. qft_branch k fl b v \<lfloor>to_real (expr_c d b)\<rfloor> (int i)) [0 ..< nat \<lfloor>to_real (expr_c d b)\<rfloor>]))"
        by (simp only: qft_derive_def Let_def if_not_P [OF ok])
      have m: "merge_loop (goodbranch ctrls) (qft_derive k d fl) (b # bs) new =
          (case qft_derive k d fl b of
             Inl err \<Rightarrow> Inl err
           | Inr xs \<Rightarrow> merge_loop (goodbranch ctrls) (qft_derive k d fl) bs (foldl (\<lambda>new x. insert_branch x new) new xs))"
        by (simp only: merge_loop.simps True not_True_eq_False if_False)
      show ?thesis
        unfolding l m r
        by (cases "reg b (key_index k)") (simp_all only: option.case sum.case Cons.IH foldl_insert_map)
    qed
  qed
qed

lemma branchesEqual_amp [simp]:
  "branchesEqual (x\<lparr>amp := a\<rparr>) y = branchesEqual x y"
  "branchesEqual x (y\<lparr>amp := a\<rparr>) = branchesEqual x y"
  by (simp_all add: branchesEqual_def reg_def)

lemma insert_keeps:
  "b \<in> set new \<Longrightarrow> \<not> branchesEqual x b \<Longrightarrow> b \<in> set (insert_branch x new)"
  by (induction new) auto

lemma insert_own:
  "\<forall>e\<in>set new. \<not> branchesEqual b e \<Longrightarrow> b \<in> set (insert_branch b new)"
  by (induction new) auto

lemma insert_fresh:
  "\<forall>e\<in>set new. \<not> branchesEqual b e \<Longrightarrow> \<not> branchesEqual b x \<Longrightarrow>
   \<forall>e\<in>set (insert_branch x new). \<not> branchesEqual b e"
  by (induction new) auto

lemma insert_many_keeps:
  "b \<in> set new \<Longrightarrow> \<forall>x\<in>set xs. \<not> branchesEqual x b \<Longrightarrow>
   b \<in> set (foldl (\<lambda>new x. insert_branch x new) new xs)"
  by (induction xs arbitrary: new) (simp_all add: insert_keeps)

lemma insert_many_fresh:
  "\<forall>e\<in>set new. \<not> branchesEqual b e \<Longrightarrow> \<forall>x\<in>set xs. \<not> branchesEqual b x \<Longrightarrow>
   \<forall>e\<in>set (foldl (\<lambda>new x. insert_branch x new) new xs). \<not> branchesEqual b e"
proof (induction xs arbitrary: new)
  case Nil
  then show ?case by simp
next
  case (Cons x xs)
  from Cons.prems have "\<forall>e\<in>set (insert_branch x new). \<not> branchesEqual b e"
    by (intro insert_fresh) simp_all
  with Cons show ?case by simp
qed

text \<open>A branch that is already among the new branches stays there.\<close>

lemma merge_loop_keeps:
  assumes "merge_loop good derive bs new = Inr res"
    and "b \<in> set new"
    and "\<forall>x\<in>set bs. \<not> good x \<longrightarrow> \<not> branchesEqual x b"
    and "\<forall>a\<in>set bs. good a \<longrightarrow> (\<forall>xs. derive a = Inr xs \<longrightarrow> (\<forall>x\<in>set xs. \<not> branchesEqual x b))"
  shows "b \<in> set res"
  using assms
proof (induction bs arbitrary: new)
  case Nil
  then show ?case by simp
next
  case (Cons a bs)
  show ?case
  proof (cases "good a")
    case False
    with Cons.prems have "b \<in> set (insert_branch a new)" by (intro insert_keeps) simp_all
    moreover from False Cons.prems(1) have "merge_loop good derive bs (insert_branch a new) = Inr res" by simp
    ultimately show ?thesis using Cons.prems(3,4) by (intro Cons.IH) simp_all
  next
    case True
    with Cons.prems(1) obtain xs where xs: "derive a = Inr xs"
      and run: "merge_loop good derive bs (foldl (\<lambda>new x. insert_branch x new) new xs) = Inr res"
      by (cases "derive a") simp_all
    from True xs Cons.prems(4) have "\<forall>x\<in>set xs. \<not> branchesEqual x b" by simp
    with Cons.prems(2) have "b \<in> set (foldl (\<lambda>new x. insert_branch x new) new xs)"
      by (rule insert_many_keeps)
    with run show ?thesis using Cons.prems(3,4) by (intro Cons.IH) simp_all
  qed
qed

text \<open>A frozen branch of the input is among the new branches at the end.\<close>

lemma merge_loop_frozen:
  assumes "merge_loop good derive (pre @ b # post) new = Inr res"
    and "\<not> good b"
    and "\<forall>e\<in>set new. \<not> branchesEqual b e"
    and "\<forall>x\<in>set pre. \<not> good x \<longrightarrow> \<not> branchesEqual b x"
    and "\<forall>x\<in>set post. \<not> good x \<longrightarrow> \<not> branchesEqual x b"
    and "\<forall>a\<in>set (pre @ post). good a \<longrightarrow>
           (\<forall>xs. derive a = Inr xs \<longrightarrow> (\<forall>x\<in>set xs. \<not> branchesEqual x b \<and> \<not> branchesEqual b x))"
  shows "b \<in> set res"
  using assms
proof (induction pre arbitrary: new)
  case Nil
  then have run: "merge_loop good derive post (insert_branch b new) = Inr res" by simp
  from Nil.prems(3) have "b \<in> set (insert_branch b new)" by (rule insert_own)
  with run show ?case using Nil.prems(5,6) by (intro merge_loop_keeps [OF run]) simp_all
next
  case (Cons a pre)
  show ?case
  proof (cases "good a")
    case False
    with Cons.prems(1) have run: "merge_loop good derive (pre @ b # post) (insert_branch a new) = Inr res" by simp
    from False Cons.prems(3,4) have "\<forall>e\<in>set (insert_branch a new). \<not> branchesEqual b e"
      by (intro insert_fresh) simp_all
    with run show ?thesis using Cons.prems(2,4,5,6) by (intro Cons.IH) simp_all
  next
    case True
    with Cons.prems(1) obtain xs where xs: "derive a = Inr xs"
      and run: "merge_loop good derive (pre @ b # post) (foldl (\<lambda>new x. insert_branch x new) new xs) = Inr res"
      by (cases "derive a") simp_all
    from True xs Cons.prems(6) have "\<forall>x\<in>set xs. \<not> branchesEqual b x" by simp
    with Cons.prems(3) have "\<forall>e\<in>set (foldl (\<lambda>new x. insert_branch x new) new xs). \<not> branchesEqual b e"
      by (rule insert_many_fresh)
    with run show ?thesis using Cons.prems(2,4,5,6) by (intro Cons.IH) simp_all
  qed
qed

lemma set_update_other:
  "(q, w) \<in> set xs \<Longrightarrow> q \<noteq> r \<Longrightarrow> (q, w) \<in> set (AList.update r v xs)"
  by (induction xs) auto

lemma reg_setreg: "reg (setreg a r v) q = (if q = r then Some v else reg a q)"
  by (simp add: reg_def setreg_def update_conv')

lemma agree_off_amp [simp]:
  "agree_off rs (x\<lparr>amp := a\<rparr>) y = agree_off rs x y"
  "agree_off rs x (y\<lparr>amp := a\<rparr>) = agree_off rs x y"
  by (simp_all add: agree_off_def reg_def)

lemma rewrite_refl: "rewrite_of rs a a"
  by (auto simp: rewrite_of_def)

lemma rewrite_amp: "rewrite_of rs a x \<Longrightarrow> rewrite_of rs a (x\<lparr>amp := c\<rparr>)"
  by (simp add: rewrite_of_def reg_def)

lemma rewrite_setreg:
  assumes "rewrite_of rs a x" and "r \<in> rs"
  shows "rewrite_of rs a (setreg x r v)"
proof -
  have "(q, w) \<in> set (regs (setreg x r v))" if "(q, w) \<in> set (regs a)" "q \<notin> rs" for q w
  proof -
    from that assms(1) have "(q, w) \<in> set (regs x)" unfolding rewrite_of_def by blast
    moreover from that(2) assms(2) have "q \<noteq> r" by blast
    ultimately show ?thesis by (simp add: setreg_def set_update_other)
  qed
  moreover have "reg (setreg x r v) q = reg a q" if "q \<notin> rs" for q
  proof -
    from that assms(2) have "q \<noteq> r" by blast
    with that assms(1) show ?thesis unfolding rewrite_of_def by (simp add: reg_setreg)
  qed
  ultimately show ?thesis unfolding rewrite_of_def by blast
qed

lemma branchesEqual_rewrite_left:
  assumes "branchesEqual x b" and "rewrite_of rs a x"
  shows "agree_off rs a b"
proof -
  have "case reg b q of None \<Rightarrow> False | Some w' \<Rightarrow> int_of w = int_of w'"
    if mem: "(q, w) \<in> set (regs a)" and ne: "q \<notin> rs" for q w
  proof -
    from mem ne assms(2) have "(q, w) \<in> set (regs x)" unfolding rewrite_of_def by blast
    with assms(1) show ?thesis
      unfolding branchesEqual_def list_all_iff by fastforce
  qed
  then show ?thesis
    unfolding agree_off_def list_all_iff by auto
qed

lemma branchesEqual_rewrite_right:
  assumes "branchesEqual b x" and "rewrite_of rs a x"
  shows "agree_off rs b a"
proof -
  have "q \<in> rs \<or> (case reg a q of None \<Rightarrow> False | Some w' \<Rightarrow> int_of w = int_of w')"
    if mem: "(q, w) \<in> set (regs b)" for q w
  proof (cases "q \<in> rs")
    case True
    then show ?thesis by simp
  next
    case False
    with assms(2) have "reg x q = reg a q" unfolding rewrite_of_def by blast
    moreover from mem assms(1) have "case reg x q of None \<Rightarrow> False | Some w' \<Rightarrow> int_of w = int_of w'"
      unfolding branchesEqual_def list_all_iff by fastforce
    ultimately show ?thesis by simp
  qed
  then show ?thesis
    unfolding agree_off_def list_all_iff by auto
qed

lemma derived_differs:
  assumes sep: "separated rs ctrls bs"
    and a: "a \<in> set bs" "goodbranch ctrls a"
    and b: "b \<in> set bs" "\<not> goodbranch ctrls b"
    and x: "rewrite_of rs a x"
  shows "\<not> branchesEqual x b \<and> \<not> branchesEqual b x"
proof -
  from sep a b have n: "\<not> agree_off rs a b" "\<not> agree_off rs b a"
    unfolding separated_def by auto
  from n(1) branchesEqual_rewrite_left [OF _ x] have "\<not> branchesEqual x b" by blast
  moreover from n(2) branchesEqual_rewrite_right [OF _ x] have "\<not> branchesEqual b x" by blast
  ultimately show ?thesis by simp
qed

lemma setreg_form_rewrite:
  assumes "\<exists>c v. x = setreg (a\<lparr>amp := c\<rparr>) r v"
  shows "rewrite_of {r} a x"
proof -
  from assms obtain c v where x: "x = setreg (a\<lparr>amp := c\<rparr>) r v" by blast
  have "rewrite_of {r} a (a\<lparr>amp := c\<rparr>)" by (intro rewrite_amp rewrite_refl)
  then show ?thesis unfolding x by (rule rewrite_setreg) simp
qed

lemma merge_loop_frame:
  assumes run: "merge_loop (goodbranch ctrls) derive bs [] = Inr res"
    and form: "\<And>a xs x. derive a = Inr xs \<Longrightarrow> x \<in> set xs \<Longrightarrow> rewrite_of rs a x"
    and uniq: "structurally_distinct bs"
    and sep: "separated rs ctrls bs"
    and b: "b \<in> set bs" "\<not> goodbranch ctrls b"
  shows "b \<in> set res"
proof -
  from b(1) obtain i where i: "i < length bs" "bs ! i = b" by (auto simp: in_set_conv_nth)
  let ?pre = "take i bs" and ?post = "drop (Suc i) bs"
  from i have split: "bs = ?pre @ b # ?post" by (metis id_take_nth_drop)
  have pre: "\<forall>x\<in>set ?pre. \<not> goodbranch ctrls x \<longrightarrow> \<not> branchesEqual b x"
  proof (intro ballI impI)
    fix x assume "x \<in> set ?pre"
    then obtain j where "j < i" "x = bs ! j" using i(1) by (auto simp: in_set_conv_nth)
    with uniq i show "\<not> branchesEqual b x" unfolding structurally_distinct_def by auto
  qed
  have post: "\<forall>x\<in>set ?post. \<not> goodbranch ctrls x \<longrightarrow> \<not> branchesEqual x b"
  proof (intro ballI impI)
    fix x assume "x \<in> set ?post"
    then obtain j where "j < length bs - Suc i" "x = bs ! (Suc i + j)" by (auto simp: in_set_conv_nth)
    with uniq i show "\<not> branchesEqual x b" unfolding structurally_distinct_def by auto
  qed
  have der: "\<forall>a\<in>set (?pre @ ?post). goodbranch ctrls a \<longrightarrow>
           (\<forall>xs. derive a = Inr xs \<longrightarrow> (\<forall>x\<in>set xs. \<not> branchesEqual x b \<and> \<not> branchesEqual b x))"
  proof (intro ballI impI allI)
    fix a xs x assume a: "a \<in> set (?pre @ ?post)" "goodbranch ctrls a" and xs: "derive a = Inr xs" "x \<in> set xs"
    from a(1) have mem: "a \<in> set bs" by (auto dest: in_set_takeD in_set_dropD)
    from derived_differs [OF sep mem a(2) b form [OF xs]]
    show "\<not> branchesEqual x b \<and> \<not> branchesEqual b x" .
  qed
  from run have run': "merge_loop (goodbranch ctrls) derive (?pre @ b # ?post) [] = Inr res"
    by (subst split [symmetric])
  show ?thesis
    by (rule merge_loop_frozen [OF run' b(2) _ pre post der]) simp
qed

lemma setreg_amp: "(setreg b r v)\<lparr>amp := c\<rparr> = setreg (b\<lparr>amp := c\<rparr>) r v"
  by (simp add: setreg_def)

lemma had_derive_form:
  assumes "had_derive k bit_e a = Inr xs" and "x \<in> set xs"
  shows "\<exists>c v. x = setreg (a\<lparr>amp := c\<rparr>) (key_index k) v"
proof -
  from assms(1) obtain w idx where
    xs: "xs = [setreg (a\<lparr>amp := amp a / complex_of_real (sqrt 2)\<rparr>) (key_index k) (setitem w idx 0),
               (if getitem w idx = 1
                then (setreg (a\<lparr>amp := amp a / complex_of_real (sqrt 2)\<rparr>) (key_index k) (setitem w idx 1))
                       \<lparr>amp := amp (setreg (a\<lparr>amp := amp a / complex_of_real (sqrt 2)\<rparr>) (key_index k) (setitem w idx 1)) * (- 1)\<rparr>
                else setreg (a\<lparr>amp := amp a / complex_of_real (sqrt 2)\<rparr>) (key_index k) (setitem w idx 1))]"
    unfolding had_derive_def Let_def by (auto split: option.splits)
  from assms(2) consider
      "x = setreg (a\<lparr>amp := amp a / complex_of_real (sqrt 2)\<rparr>) (key_index k) (setitem w idx 0)"
    | "x = (setreg (a\<lparr>amp := amp a / complex_of_real (sqrt 2)\<rparr>) (key_index k) (setitem w idx 1))
                       \<lparr>amp := amp (setreg (a\<lparr>amp := amp a / complex_of_real (sqrt 2)\<rparr>) (key_index k) (setitem w idx 1)) * (- 1)\<rparr>"
    | "x = setreg (a\<lparr>amp := amp a / complex_of_real (sqrt 2)\<rparr>) (key_index k) (setitem w idx 1)"
    unfolding xs by (auto split: if_splits)
  then show ?thesis
  proof cases
    case 1
    then show ?thesis by blast
  next
    case 2
    then have "x = setreg (a\<lparr>amp := amp (setreg (a\<lparr>amp := amp a / complex_of_real (sqrt 2)\<rparr>) (key_index k) (setitem w idx 1)) * (- 1)\<rparr>)
        (key_index k) (setitem w idx 1)"
      by (simp add: setreg_def)
    then show ?thesis by blast
  next
    case 3
    then show ?thesis by blast
  qed
qed

lemma qft_derive_form:
  assumes "qft_derive k d fl a = Inr xs" and "x \<in> set xs"
  shows "\<exists>c v. x = setreg (a\<lparr>amp := c\<rparr>) (key_index k) v"
proof -
  from assms(1) obtain w where xs: "xs = map (\<lambda>i. qft_branch k fl a w \<lfloor>to_real (expr_c d a)\<rfloor> (int i)) [0 ..< nat \<lfloor>to_real (expr_c d a)\<rfloor>]"
    unfolding qft_derive_def Let_def by (auto split: if_splits option.splits)
  with assms(2) obtain i where "x = qft_branch k fl a w \<lfloor>to_real (expr_c d a)\<rfloor> (int i)" by auto
  then show ?thesis unfolding qft_branch_def Let_def by blast
qed

text \<open>The loops of the perpendicular bit: a branch of \<^verbatim>\<open>newbranches\<close> stays, and a branch that is
  appended as it is ends among the new branches.\<close>

lemma perp_loop_keeps:
  assumes "snd (perp_loop step bs new) = Inr res"
    and "b \<in> set new"
    and "\<forall>a\<in>set bs. \<forall>xs. step a = Inr (Merge xs) \<longrightarrow> (\<forall>x\<in>set xs. \<not> branchesEqual x b)"
  shows "b \<in> set res"
  using assms
proof (induction bs arbitrary: new)
  case Nil
  then show ?case by simp
next
  case (Cons a bs)
  from Cons.prems(3) have rest:
    "\<forall>a\<in>set bs. \<forall>xs. step a = Inr (Merge xs) \<longrightarrow> (\<forall>x\<in>set xs. \<not> branchesEqual x b)"
    by simp
  show ?case
  proof (cases "step a")
    case (Inl e)
    with Cons.prems(1) show ?thesis by simp
  next
    case (Inr pl)
    show ?thesis
    proof (cases pl)
      case (Keep x)
      with Inr Cons.prems(1) have run: "snd (perp_loop step bs (new @ [x])) = Inr res"
        by (simp add: case_prod_beta)
      from Cons.prems(2) have mem: "b \<in> set (new @ [x])" by simp
      show ?thesis by (rule Cons.IH [OF run mem rest])
    next
      case (Merge xs)
      with Inr Cons.prems(1) have run: "snd (perp_loop step bs (foldl (\<lambda>new x. insert_branch x new) new xs)) = Inr res"
        by (simp add: case_prod_beta)
      from Inr Merge Cons.prems(3) have "\<forall>x\<in>set xs. \<not> branchesEqual x b" by simp
      with Cons.prems(2) have mem: "b \<in> set (foldl (\<lambda>new x. insert_branch x new) new xs)"
        by (rule insert_many_keeps)
      show ?thesis by (rule Cons.IH [OF run mem rest])
    qed
  qed
qed

lemma perp_loop_frozen:
  assumes "snd (perp_loop step bs new) = Inr res"
    and "b \<in> set bs"
    and "step b = Inr (Keep b)"
    and "\<forall>a\<in>set bs. \<forall>xs. step a = Inr (Merge xs) \<longrightarrow> (\<forall>x\<in>set xs. \<not> branchesEqual x b)"
  shows "b \<in> set res"
  using assms
proof (induction bs arbitrary: new)
  case Nil
  then show ?case by simp
next
  case (Cons a bs)
  from Cons.prems(4) have rest:
    "\<forall>a\<in>set bs. \<forall>xs. step a = Inr (Merge xs) \<longrightarrow> (\<forall>x\<in>set xs. \<not> branchesEqual x b)"
    by simp
  show ?case
  proof (cases "a = b")
    case True
    with Cons.prems(1,3) have run: "snd (perp_loop step bs (new @ [b])) = Inr res"
      by (simp add: case_prod_beta)
    have mem: "b \<in> set (new @ [b])" by simp
    show ?thesis by (rule perp_loop_keeps [OF run mem rest])
  next
    case False
    with Cons.prems(2) have mem: "b \<in> set bs" by simp
    show ?thesis
    proof (cases "step a")
      case (Inl e)
      with Cons.prems(1) show ?thesis by simp
    next
      case (Inr pl)
      show ?thesis
      proof (cases pl)
        case (Keep x)
        with Inr Cons.prems(1) have run: "snd (perp_loop step bs (new @ [x])) = Inr res"
          by (simp add: case_prod_beta)
        show ?thesis by (rule Cons.IH [OF run mem Cons.prems(3) rest])
      next
        case (Merge xs)
        with Inr Cons.prems(1) have run: "snd (perp_loop step bs (foldl (\<lambda>new x. insert_branch x new) new xs)) = Inr res"
          by (simp add: case_prod_beta)
        show ?thesis by (rule Cons.IH [OF run mem Cons.prems(3) rest])
      qed
    qed
  qed
qed

lemma perp_loop_defined:
  assumes "snd (perp_loop step bs new) = Inr res" and "a \<in> set bs"
  shows "\<exists>pl. step a = Inr pl"
  using assms
proof (induction bs arbitrary: new)
  case Nil
  then show ?case by simp
next
  case (Cons c bs)
  show ?case
  proof (cases "step c")
    case (Inl e)
    with Cons.prems(1) show ?thesis by simp
  next
    case (Inr pl)
    show ?thesis
    proof (cases "a = c")
      case True
      with Inr show ?thesis by simp
    next
      case False
      with Cons.prems(2) have mem: "a \<in> set bs" by simp
      from Inr Cons.prems(1) obtain new' where "snd (perp_loop step bs new') = Inr res"
        by (cases pl) (auto simp: case_prod_beta)
      from Cons.IH [OF this mem] show ?thesis .
    qed
  qed
qed

lemma perp_list_pairs_rewrite:
  assumes "x \<in> set (perp_list_pairs r orth vs w a)"
  shows "rewrite_of {r, orth} a x"
proof -
  from assms obtain j where
    "x = setreg (a\<lparr>amp := ms_list_amp r vs True a j\<rparr>) r (es_of_lit (vs ! j))
     \<or> x = setreg (setreg (a\<lparr>amp := ms_list_amp r vs False a j\<rparr>) r (es_of_lit (vs ! j))) orth w"
    unfolding perp_list_pairs_def by auto
  then show ?thesis
    by (auto intro!: rewrite_setreg rewrite_amp rewrite_refl)
qed

lemma perp_dict_pairs_rewrite:
  assumes "x \<in> set (perp_dict_pairs r orth kvs w a)"
  shows "rewrite_of {r, orth} a x"
proof -
  from assms obtain k1 e1 where
    "x = setreg (a\<lparr>amp := ms_dict_amp r kvs True a a k1 e1\<rparr>) r (es_of_lit k1)
     \<or> x = setreg (setreg (a\<lparr>amp := ms_dict_amp r kvs False a a k1 e1\<rparr>) r (es_of_lit k1)) orth w"
    unfolding perp_dict_pairs_def by auto
  then show ?thesis
    by (auto intro!: rewrite_setreg rewrite_amp rewrite_refl)
qed

lemma perp_steps_frozen:
  assumes "\<not> goodbranch ctrls b"
  shows "perp_init_list_step ctrls r orth vs b = Inr pl \<Longrightarrow> pl = Keep b"
    and "perp_init_dict_step ctrls r orth kvs b = Inr pl \<Longrightarrow> pl = Keep b"
    and "perp_init_inv_list_step ctrls r orth vs b = Inr pl \<Longrightarrow> pl = Keep b"
    and "perp_init_inv_dict_step ctrls r orth kvs b = Inr pl \<Longrightarrow> pl = Keep b"
  using assms
  by (auto simp: perp_init_list_step_def perp_init_dict_step_def perp_init_inv_list_step_def
        perp_init_inv_dict_step_def split: option.splits if_splits)

lemma perp_steps_merge:
  shows "perp_init_list_step ctrls r orth vs a = Inr (Merge xs) \<Longrightarrow> x \<in> set xs
           \<Longrightarrow> goodbranch ctrls a \<and> rewrite_of {r, orth} a x"
    and "perp_init_dict_step ctrls r orth kvs a = Inr (Merge xs) \<Longrightarrow> x \<in> set xs
           \<Longrightarrow> goodbranch ctrls a \<and> rewrite_of {r, orth} a x"
    and "perp_init_inv_list_step ctrls r orth vs a = Inr (Merge xs) \<Longrightarrow> x \<in> set xs
           \<Longrightarrow> goodbranch ctrls a \<and> rewrite_of {r, orth} a x"
    and "perp_init_inv_dict_step ctrls r orth kvs a = Inr (Merge xs) \<Longrightarrow> x \<in> set xs
           \<Longrightarrow> goodbranch ctrls a \<and> rewrite_of {r, orth} a x"
  by (auto simp: perp_init_list_step_def perp_init_dict_step_def perp_init_inv_list_step_def
        perp_init_inv_dict_step_def perp_list_pairs_rewrite perp_dict_pairs_rewrite
        split: option.splits if_splits)

lemma perp_loop_frame:
  assumes run: "snd (perp_loop step bs []) = Inr new"
    and frozen: "\<And>pl. step b = Inr pl \<Longrightarrow> pl = Keep b"
    and merge: "\<And>a xs x. step a = Inr (Merge xs) \<Longrightarrow> x \<in> set xs \<Longrightarrow> goodbranch ctrls a \<and> rewrite_of rs a x"
    and sep: "separated rs ctrls bs"
    and b: "b \<in> set bs" "\<not> goodbranch ctrls b"
  shows "b \<in> set new"
proof -
  from perp_loop_defined [OF run b(1)] frozen have keep: "step b = Inr (Keep b)" by blast
  have der: "\<forall>a\<in>set bs. \<forall>xs. step a = Inr (Merge xs) \<longrightarrow> (\<forall>x\<in>set xs. \<not> branchesEqual x b)"
  proof (intro ballI allI impI)
    fix a xs x assume a: "a \<in> set bs" and xs: "step a = Inr (Merge xs)" "x \<in> set xs"
    from merge [OF xs] have "goodbranch ctrls a" "rewrite_of rs a x" by simp_all
    from derived_differs [OF sep a this(1) b this(2)] show "\<not> branchesEqual x b" by simp
  qed
  show ?thesis by (rule perp_loop_frozen [OF run b(1) keep der])
qed

lemma init_expr_loop_frame:
  "b \<in> set bs \<Longrightarrow> \<not> goodbranch ctrls b \<Longrightarrow> b \<in> set (fst (init_expr_loop ctrls r e bs))"
  by (induction bs) (auto split: pyval.splits prod.splits)

lemma init_list_frame:
  "b \<in> set bs \<Longrightarrow> \<not> goodbranch ctrls b \<Longrightarrow> b \<in> set (init_list_branches ctrls r vs bs)"
  by (auto simp: init_list_branches_def)

lemma init_dict_loop_frame:
  "init_dict_loop ctrls r kvs bs = Inr new \<Longrightarrow> b \<in> set bs \<Longrightarrow> \<not> goodbranch ctrls b \<Longrightarrow> b \<in> set new"
  by (induction bs arbitrary: new) (auto split: if_splits sum.splits)

lemma init_frame:
  assumes run: "init s k val = Returned s' ()" and queue: "queue_stack s = []"
    and b: "b \<in> set (branches s)" "\<not> goodbranch (controls s) b"
  shows "b \<in> set (branches s')"
proof (cases val)
  case (QExpr e)
  obtain bs' err where loop: "init_expr_loop (controls s) (key_index k) e (branches s) = (bs', err)"
    by (cases "init_expr_loop (controls s) (key_index k) e (branches s)")
  from init_expr_loop_frame [OF b, of "key_index k" e] loop have "b \<in> set bs'" by simp
  with run queue QExpr loop show ?thesis
    by (auto simp: init_def queue_action_def split: option.splits if_splits)
next
  case (QList vs)
  with run queue init_list_frame [OF b, of "key_index k" vs] show ?thesis
    by (auto simp: init_def queue_action_def split: option.splits if_splits)
next
  case (QDict kvs)
  with run queue b show ?thesis
    by (auto simp: init_def queue_action_def split: option.splits if_splits sum.splits
             dest: init_dict_loop_frame)
next
  case QOther
  with run queue show ?thesis
    by (auto simp: init_def queue_action_def split: option.splits)
qed

lemma oper_frame:
  assumes run: "oper s k expr do undo = Returned s' ()" and queue: "queue_stack s = []"
    and b: "b \<in> set (branches s)" "\<not> goodbranch (controls s) b"
  shows "b \<in> set (branches s')"
  using assms by (auto simp: oper_def queue_action_def image_iff split: option.splits if_splits intro!: bexI [of _ b])

lemma phase_frame:
  assumes run: "phase s theta = Returned s' ()" and queue: "queue_stack s = []"
    and b: "b \<in> set (branches s)" "\<not> goodbranch (controls s) b"
  shows "b \<in> set (branches s')"
  using assms by (auto simp: phase_def queue_action_def image_iff split: option.splits if_splits intro!: bexI [of _ b])

lemma alloc_frame:
  assumes run: "alloc s k = Returned s' ()" and queue: "queue_stack s = []"
    and b: "b \<in> set (branches s)"
  shows "setreg b (reg_count s) (es_of_int 0) \<in> set (branches s')"
  using assms by (auto simp: alloc_def queue_action_def split: option.splits)

lemma pop_loop_all:
  "pop_loop r bs = (bs', None) \<Longrightarrow> bs' = map (\<lambda>b. b\<lparr>regs := AList.delete r (regs b)\<rparr>) bs"
  by (induction bs arbitrary: bs') (auto split: option.splits prod.splits)

lemma edit_top_pile_branches [simp]: "branches (edit_top_pile f s) = branches s"
  by (simp add: edit_top_pile_def split: pile.splits)

lemma alloc_inv_frame:
  assumes run: "alloc_inv s k partner = Returned s' ()" and queue: "queue_stack s = []"
    and b: "b \<in> set (branches s)"
  shows "b\<lparr>regs := AList.delete (key_index (if allocated s k then k else partner)) (regs b)\<rparr> \<in> set (branches s')"
proof -
  let ?t = "if allocated s k then k else partner"
  from run queue obtain bs' where pop: "pop_loop (key_index ?t) (branches s) = (bs', None)"
    and s': "branches s' = bs'"
    by (auto simp: alloc_inv_def queue_action_def Let_def
             split: option.splits if_splits prod.splits)
  from pop_loop_all [OF pop] s' b show ?thesis by auto
qed

lemma init_inv_list_first_frame:
  "init_inv_list_first ctrls r vs bs = Inr (newbranches, untouched) \<Longrightarrow> b \<in> set bs
     \<Longrightarrow> \<not> goodbranch ctrls b \<Longrightarrow> b \<in> set untouched"
  by (induction bs arbitrary: newbranches untouched)
     (auto split: if_splits option.splits list.splits sum.splits prod.splits)

lemma init_inv_dict_loop_frame:
  "init_inv_dict_loop ctrls r kvs bs checks new unt = Inr (new', unt')
     \<Longrightarrow> b \<in> set unt \<or> (b \<in> set bs \<and> \<not> goodbranch ctrls b) \<Longrightarrow> b \<in> set unt'"
proof (induction bs arbitrary: checks new unt)
  case Nil
  then show ?case by simp
next
  case (Cons a bs)
  show ?case
  proof (cases "goodbranch ctrls a")
    case False
    with Cons.prems(1) have run: "init_inv_dict_loop ctrls r kvs bs checks new (unt @ [a]) = Inr (new', unt')"
      by simp
    from Cons.prems(2) have "b \<in> set (unt @ [a]) \<or> (b \<in> set bs \<and> \<not> goodbranch ctrls b)" by auto
    from Cons.IH [OF run this] show ?thesis .
  next
    case True
    with Cons.prems(1) obtain checks' new'' where run: "init_inv_dict_loop ctrls r kvs bs checks' new'' unt = Inr (new', unt')"
      by (auto simp: Let_def split: option.splits if_splits prod.splits)
    from True Cons.prems(2) have "b \<in> set unt \<or> (b \<in> set bs \<and> \<not> goodbranch ctrls b)" by auto
    from Cons.IH [OF run this] show ?thesis .
  qed
qed

lemma init_inv_frame:
  assumes run: "init_inv s k val = Returned s' ()" and queue: "queue_stack s = []"
    and b: "b \<in> set (branches s)" "\<not> goodbranch (controls s) b"
  shows "b \<in> set (branches s')"
proof (cases val)
  case (QExpr e)
  with run queue b show ?thesis
    by (auto simp: init_inv_def queue_action_def split: option.splits)
next
  case (QList vs)
  with run queue obtain newbranches untouched where
    first: "init_inv_list_first (controls s) (key_index k) vs (branches s) = Inr (newbranches, untouched)"
    and s': "branches s' = map (\<lambda>b. b\<lparr>amp := amp b * complex_of_real (sqrt (real (length vs)))\<rparr>) newbranches @ untouched"
    by (auto simp: init_inv_def queue_action_def split: option.splits if_splits sum.splits prod.splits)
  from init_inv_list_first_frame [OF first b] s' show ?thesis by simp
next
  case (QDict kvs)
  with run queue obtain newbranches untouched where
    loop: "init_inv_dict_loop (controls s) (key_index k) kvs (branches s) [] [] [] = Inr (newbranches, untouched)"
    and s': "branches s' = newbranches @ untouched"
    by (auto simp: init_inv_def queue_action_def split: option.splits if_splits sum.splits prod.splits)
  from b have "b \<in> set [] \<or> (b \<in> set (branches s) \<and> \<not> goodbranch (controls s) b)" by simp
  from init_inv_dict_loop_frame [OF loop this] s' show ?thesis by simp
next
  case QOther
  with run queue show ?thesis
    by (auto simp: init_inv_def queue_action_def split: option.splits)
qed

lemma perp_init_expr_loop_frame:
  "b \<in> set bs \<Longrightarrow> \<not> goodbranch ctrls b \<Longrightarrow> b \<in> set (fst (perp_init_expr_loop ctrls r orth e bs))"
  by (induction bs) (auto split: option.splits prod.splits)

lemma perp_init_expression_frame:
  assumes run: "perp_init s k orth (QExpr e) = Returned s' ()" and queue: "queue_stack s = []"
    and b: "b \<in> set (branches s)" "\<not> goodbranch (controls s) b"
  shows "b \<in> set (branches s')"
proof -
  obtain bs' err where loop: "perp_init_expr_loop (controls s) (key_index k) (key_index orth) e (branches s) = (bs', err)"
    by (cases "perp_init_expr_loop (controls s) (key_index k) (key_index orth) e (branches s)")
  from perp_init_expr_loop_frame [OF b, of "key_index k" "key_index orth" e] loop have "b \<in> set bs'" by simp
  with run queue loop show ?thesis
    by (auto simp: perp_init_def perp_init_Expression_def queue_action_def split: option.splits if_splits)
qed

text \<open>What \<^verbatim>\<open>prune\<close> does to a branch above the threshold.\<close>

lemma prune_keeps_scaled:
  assumes "b \<in> set new" and "thresh < cmod (amp b)"
  shows "b\<lparr>amp := amp b / complex_of_real (sqrt (sum_list (map prob_of (filter (\<lambda>x. \<not> cmod (amp x) \<le> thresh) new))))\<rparr>
           \<in> set (prune_branches new)"
proof -
  let ?kept = "filter (\<lambda>x. \<not> cmod (amp x) \<le> thresh) new"
  let ?f = "\<lambda>x. x\<lparr>amp := amp x / complex_of_real (sqrt (sum_list (map prob_of ?kept)))\<rparr>"
  from assms have "b \<in> set ?kept" by simp
  then have "?f b \<in> ?f ` set ?kept" by (rule imageI)
  then show ?thesis unfolding prune_branches_eq set_map .
qed

lemma had_frame:
  assumes run: "had s k bit_e = Returned s' ()" and queue: "queue_stack s = []"
    and b: "b \<in> set (branches s)" "\<not> goodbranch (controls s) b"
    and uniq: "structurally_distinct (branches s)"
    and sep: "separated {key_index k} (controls s) (branches s)"
  shows "\<exists>new. had_loop (controls s) k bit_e (branches s) [] = Inr new \<and> b \<in> set new
            \<and> branches s' = prune_branches new"
proof -
  from run queue obtain new where loop: "had_loop (controls s) k bit_e (branches s) [] = Inr new"
    and s': "s' = prune (s\<lparr>branches := new\<rparr>)"
    by (auto simp: had_def queue_action_def split: option.splits if_splits sum.splits)
  from loop have "merge_loop (goodbranch (controls s)) (had_derive k bit_e) (branches s) [] = Inr new"
    by (simp add: had_loop_merge)
  then have "b \<in> set new"
    by (rule merge_loop_frame [OF _ setreg_form_rewrite [OF had_derive_form] uniq sep b])
  with loop s' show ?thesis by (auto simp: prune_def)
qed

lemma qft_frame:
  assumes run: "qft s k d fl = Returned s' ()" and queue: "queue_stack s = []"
    and b: "b \<in> set (branches s)" "\<not> goodbranch (controls s) b"
    and uniq: "structurally_distinct (branches s)"
    and sep: "separated {key_index k} (controls s) (branches s)"
  shows "\<exists>new. qft_loop (controls s) k d fl (branches s) [] = Inr new \<and> b \<in> set new
            \<and> branches s' = prune_branches new"
proof -
  from run queue obtain new where loop: "qft_loop (controls s) k d fl (branches s) [] = Inr new"
    and s': "s' = prune (s\<lparr>branches := new\<rparr>)"
    by (auto simp: qft_def queue_action_def split: option.splits if_splits sum.splits)
  from loop have "merge_loop (goodbranch (controls s)) (qft_derive k d fl) (branches s) [] = Inr new"
    by (simp add: qft_loop_merge)
  then have "b \<in> set new"
    by (rule merge_loop_frame [OF _ setreg_form_rewrite [OF qft_derive_form] uniq sep b])
  with loop s' show ?thesis by (auto simp: prune_def)
qed

lemma perp_init_frame:
  assumes run: "perp_init s k orth val = Returned s' ()" and queue: "queue_stack s = []"
    and b: "b \<in> set (branches s)" "\<not> goodbranch (controls s) b"
    and sep: "separated {key_index k, key_index orth} (controls s) (branches s)"
    and val: "prunes (PerpInit k orth val)"
  shows "\<exists>new. merged s (PerpInit k orth val) = Inr new \<and> b \<in> set new \<and> branches s' = prune_branches new"
proof (cases val)
  case (QExpr e)
  with val show ?thesis by simp
next
  case (QList vs)
  let ?step = "perp_init_list_step (controls s) (key_index k) (key_index orth) vs"
  from run queue QList obtain bs' new where loop: "perp_loop ?step (branches s) [] = (bs', Inr new)"
    and s': "s' = prune (s\<lparr>branches := new\<rparr>)"
    by (auto simp: perp_init_def queue_action_def split: option.splits if_splits sum.splits prod.splits)
  from loop have m: "snd (perp_loop ?step (branches s) []) = Inr new" by simp
  have "b \<in> set new"
    by (rule perp_loop_frame [OF m perp_steps_frozen(1) [OF b(2)] perp_steps_merge(1) sep b])
  with m s' QList show ?thesis by (simp add: prune_def)
next
  case (QDict kvs)
  let ?step = "perp_init_dict_step (controls s) (key_index k) (key_index orth) kvs"
  from run queue QDict obtain bs' new where loop: "perp_loop ?step (branches s) [] = (bs', Inr new)"
    and s': "s' = prune (s\<lparr>branches := new\<rparr>)"
    by (auto simp: perp_init_def queue_action_def split: option.splits if_splits sum.splits prod.splits)
  from loop have m: "snd (perp_loop ?step (branches s) []) = Inr new" by simp
  have "b \<in> set new"
    by (rule perp_loop_frame [OF m perp_steps_frozen(2) [OF b(2)] perp_steps_merge(2) sep b])
  with m s' QDict show ?thesis by (simp add: prune_def)
next
  case QOther
  with val show ?thesis by simp
qed

lemma perp_init_inv_frame:
  assumes run: "perp_init_inv s k orth val = Returned s' ()" and queue: "queue_stack s = []"
    and b: "b \<in> set (branches s)" "\<not> goodbranch (controls s) b"
    and sep: "separated {key_index k, key_index orth} (controls s) (branches s)"
    and val: "prunes (PerpInitInv k orth val)"
  shows "\<exists>new. merged s (PerpInitInv k orth val) = Inr new \<and> b \<in> set new \<and> branches s' = prune_branches new"
proof (cases val)
  case (QExpr e)
  with val show ?thesis by simp
next
  case (QList vs)
  let ?step = "perp_init_inv_list_step (controls s) (key_index k) (key_index orth) vs"
  from run queue QList obtain bs' new where loop: "perp_loop ?step (branches s) [] = (bs', Inr new)"
    and s': "s' = prune (s\<lparr>branches := new\<rparr>)"
    by (auto simp: perp_init_inv_def queue_action_def split: option.splits if_splits sum.splits prod.splits)
  from loop have m: "snd (perp_loop ?step (branches s) []) = Inr new" by simp
  have "b \<in> set new"
    by (rule perp_loop_frame [OF m perp_steps_frozen(3) [OF b(2)] perp_steps_merge(3) sep b])
  with m s' QList show ?thesis by (simp add: prune_def)
next
  case (QDict kvs)
  let ?step = "perp_init_inv_dict_step (controls s) (key_index k) (key_index orth) kvs"
  from run queue QDict obtain bs' new where loop: "perp_loop ?step (branches s) [] = (bs', Inr new)"
    and s': "s' = prune (s\<lparr>branches := new\<rparr>)"
    by (auto simp: perp_init_inv_def queue_action_def split: option.splits if_splits sum.splits prod.splits)
  from loop have m: "snd (perp_loop ?step (branches s) []) = Inr new" by simp
  have "b \<in> set new"
    by (rule perp_loop_frame [OF m perp_steps_frozen(4) [OF b(2)] perp_steps_merge(4) sep b])
  with m s' QDict show ?thesis by (simp add: prune_def)
next
  case QOther
  with val show ?thesis by simp
qed

lemma tiny_loop:
  "had_loop (controls tiny_state) key0 (const_expr 0) (branches tiny_state) []
  = Inr [\<lparr>amp = complex_of_real ((10 ^ 22 - 1) / (10 ^ 22 + 1)) / complex_of_real (sqrt 2), regs = [(0, ES False 0), (1, ES False 1)]\<rparr>,
         \<lparr>amp = complex_of_real ((10 ^ 22 - 1) / (10 ^ 22 + 1)) / complex_of_real (sqrt 2), regs = [(0, ES False 1), (1, ES False 1)]\<rparr>,
         \<lparr>amp = complex_of_real (2 * 10 ^ 11 / (10 ^ 22 + 1)), regs = [(0, ES False 0), (1, ES False 0)]\<rparr>]"
  by (simp add: tiny_state_def eval_defs bit_eval branchesEqual_def)

lemma tiny_big: "thresh < cmod (complex_of_real ((10 ^ 22 - 1) / (10 ^ 22 + 1)) / complex_of_real (sqrt 2))"
proof -
  have "sqrt 2 < 2" by (simp add: real_less_lsqrt)
  then have "(1 / 2 :: real) < 1 / sqrt 2" by (simp add: field_simps)
  then have "thresh < (10 ^ 22 - 1) / (10 ^ 22 + 1) * (1 / sqrt 2)" by (simp add: thresh_def)
  then show ?thesis by (simp add: norm_divide)
qed

lemma tiny_small: "\<not> thresh < cmod (complex_of_real (2 * 10 ^ 11 / (10 ^ 22 + 1)))"
  by (simp add: thresh_def)

lemma tiny_norm:
  "sqrt (2 * (9999999999999999999999 / (10000000000000000000001 * sqrt 2))\<^sup>2)
      = 9999999999999999999999 / 10000000000000000000001"
proof -
  have "2 * (9999999999999999999999 / (10000000000000000000001 * sqrt 2))\<^sup>2
      = (9999999999999999999999 / 10000000000000000000001 :: real)\<^sup>2"
    by (simp add: power_divide power_mult_distrib)
  then show ?thesis by (simp del: power_divide)
qed

text \<open>
  C4, as stated, fails across the prune step: in \<open>tiny_state\<close> (unit norm) the branch with
  register 1 equal to 0 is frozen under the control on register 1 and has an amplitude below
  the threshold. \<^verbatim>\<open>had\<close> on register 0 returns a state from which this branch is gone, since the
  final \<^verbatim>\<open>prune\<close> runs over all branches, and the two branches that remain are renormalised.
\<close>

theorem had_drops_frozen_branch:
  "\<lparr>amp = complex_of_real (2 * 10 ^ 11 / (10 ^ 22 + 1)), regs = [(0, ES False 0), (1, ES False 0)]\<rparr>
      \<in> set (branches tiny_state)
   \<and> \<not> goodbranch (controls tiny_state)
        \<lparr>amp = complex_of_real (2 * 10 ^ 11 / (10 ^ 22 + 1)), regs = [(0, ES False 0), (1, ES False 0)]\<rparr>
   \<and> sum_list (map prob_of (branches tiny_state)) = 1
   \<and> call tiny_state (Had key0 (const_expr 0))
     = Returned (tiny_state\<lparr>branches :=
          [\<lparr>amp = 1 / complex_of_real (sqrt 2), regs = [(0, ES False 0), (1, ES False 1)]\<rparr>,
           \<lparr>amp = 1 / complex_of_real (sqrt 2), regs = [(0, ES False 1), (1, ES False 1)]\<rparr>]\<rparr>) ()"
proof -
  have q: "queue_action tiny_state (Action ''had'' [AKey key0, AExpr (const_expr 0)]) = None"
    "assert_mutable tiny_state key0 = None" "key_key key0 \<notin> expr_keys (const_expr 0)"
    by (simp_all add: tiny_state_def eval_defs)
  have run: "had tiny_state key0 (const_expr 0)
     = Returned (tiny_state\<lparr>branches :=
          [\<lparr>amp = 1 / complex_of_real (sqrt 2), regs = [(0, ES False 0), (1, ES False 1)]\<rparr>,
           \<lparr>amp = 1 / complex_of_real (sqrt 2), regs = [(0, ES False 1), (1, ES False 1)]\<rparr>]\<rparr>) ()"
    using tiny_big tiny_small
    by (simp add: had_def q tiny_loop prune_def prune_branches_def prob_of_def norm_divide tiny_norm del: of_real_divide)
  have pre: "\<lparr>amp = complex_of_real (2 * 10 ^ 11 / (10 ^ 22 + 1)), regs = [(0, ES False 0), (1, ES False 0)]\<rparr>
      \<in> set (branches tiny_state)"
    "\<not> goodbranch (controls tiny_state)
        \<lparr>amp = complex_of_real (2 * 10 ^ 11 / (10 ^ 22 + 1)), regs = [(0, ES False 0), (1, ES False 0)]\<rparr>"
    "sum_list (map prob_of (branches tiny_state)) = 1"
    by (simp_all add: tiny_state_def eval_defs prob_of_def power2_eq_square)
  from run pre show ?thesis by simp
qed

text \<open>
  C4 (amended): let one of the primitives \<^verbatim>\<open>alloc\<close>, \<^verbatim>\<open>alloc_inv\<close>, \<^verbatim>\<open>init\<close>, \<^verbatim>\<open>init_inv\<close>,
  \<^verbatim>\<open>perp_init\<close>, \<^verbatim>\<open>perp_init_inv\<close> (list and dictionary arms), \<^verbatim>\<open>had\<close>, \<^verbatim>\<open>had_inv\<close>, \<^verbatim>\<open>qft\<close>,
  \<^verbatim>\<open>qft_inv\<close>, \<^verbatim>\<open>oper\<close>, \<^verbatim>\<open>oper_inv\<close>, \<^verbatim>\<open>phase\<close>, \<^verbatim>\<open>phase_inv\<close> execute (no open queue) and return,
  and let \<open>b\<close> be a branch on which some control evaluates to 0.

  For the primitives that do not prune, \<open>b\<close> is a branch of the new state, with the same
  amplitude and the same register values; \<^verbatim>\<open>alloc\<close> has added its new register with value 0 to
  \<open>b\<close> as to every branch, and \<^verbatim>\<open>alloc_inv\<close> has removed its register.

  The other primitives (\<^verbatim>\<open>had\<close>, \<^verbatim>\<open>qft\<close>, their inverses, and the list and dictionary arms of
  \<^verbatim>\<open>perp_init\<close> and \<^verbatim>\<open>perp_init_inv\<close>) merge new branches and then prune. On a state whose
  branches are structurally distinct and whose active branches differ from the frozen ones in
  a register other than the targets, \<open>b\<close> is, unchanged, in the list that the loop of the
  primitive hands to \<^verbatim>\<open>prune\<close>; \<^verbatim>\<open>prune\<close> then runs over the whole list, and when the magnitude of
  \<open>b\<close> exceeds \<open>1e-10\<close> the new state holds \<open>b\<close> with its amplitude divided by the norm of the
  kept branches.
\<close>

theorem frozen_branch_frame:
  assumes run: "call s p = Returned s' ()" and queue: "queue_stack s = []"
    and b: "b \<in> set (branches s)" "\<not> goodbranch (controls s) b"
    and arm: "\<not> perp_inv_expression_arm p"
    and inv: "prunes p \<longrightarrow> structurally_distinct (branches s) \<and> separated (targets p) (controls s) (branches s)"
  shows "(\<not> prunes p \<longrightarrow> frozen_image s p b \<in> set (branches s'))
       \<and> (prunes p \<longrightarrow>
            (\<exists>new. merged s p = Inr new \<and> b \<in> set new \<and> branches s' = prune_branches new
               \<and> (thresh < cmod (amp b) \<longrightarrow>
                    b\<lparr>amp := amp b / complex_of_real
                         (sqrt (sum_list (map prob_of (filter (\<lambda>x. \<not> cmod (amp x) \<le> thresh) new))))\<rparr>
                      \<in> set (branches s'))))"
proof -
  have scaled: "\<exists>new. merged s p = Inr new \<and> b \<in> set new \<and> branches s' = prune_branches new
               \<and> (thresh < cmod (amp b) \<longrightarrow>
                    b\<lparr>amp := amp b / complex_of_real
                         (sqrt (sum_list (map prob_of (filter (\<lambda>x. \<not> cmod (amp x) \<le> thresh) new))))\<rparr>
                      \<in> set (branches s'))"
    if "\<exists>new. merged s p = Inr new \<and> b \<in> set new \<and> branches s' = prune_branches new"
  proof -
    from that obtain new where n: "merged s p = Inr new" "b \<in> set new" "branches s' = prune_branches new"
      by blast
    from n(2,3) prune_keeps_scaled [of b new] n(1) show ?thesis by auto
  qed
  show ?thesis
  proof (cases p)
    case (Alloc k)
    with run have "alloc s k = Returned s' ()" by simp
    from alloc_frame [OF this queue b(1)] Alloc show ?thesis by simp
  next
    case (AllocInv k partner)
    with run have "alloc_inv s k partner = Returned s' ()" by simp
    from alloc_inv_frame [OF this queue b(1)] AllocInv show ?thesis by simp
  next
    case (Init k val)
    with run have "init s k val = Returned s' ()" by simp
    from init_frame [OF this queue b] Init show ?thesis by simp
  next
    case (InitInv k val)
    with run have "init_inv s k val = Returned s' ()" by simp
    from init_inv_frame [OF this queue b] InitInv show ?thesis by simp
  next
    case (PerpInit k orth val)
    with run have r: "perp_init s k orth val = Returned s' ()" by simp
    show ?thesis
    proof (cases "prunes p")
      case True
      with inv PerpInit have sep: "separated {key_index k, key_index orth} (controls s) (branches s)" by simp
      from True PerpInit have "prunes (PerpInit k orth val)" by simp
      from scaled perp_init_frame [OF r queue b sep this] True PerpInit show ?thesis by simp
    next
      case False
      show ?thesis
      proof (cases val)
        case (QExpr e)
        with r have "perp_init s k orth (QExpr e) = Returned s' ()" by simp
        from perp_init_expression_frame [OF this queue b] False PerpInit show ?thesis by simp
      next
        case (QList vs)
        with False PerpInit show ?thesis by simp
      next
        case (QDict kvs)
        with False PerpInit show ?thesis by simp
      next
        case QOther
        with r queue show ?thesis
          by (auto simp: perp_init_def queue_action_def split: option.splits)
      qed
    qed
  next
    case (PerpInitInv k orth val)
    with run have r: "perp_init_inv s k orth val = Returned s' ()" by simp
    show ?thesis
    proof (cases "prunes p")
      case True
      with inv PerpInitInv have sep: "separated {key_index k, key_index orth} (controls s) (branches s)" by simp
      from True PerpInitInv have "prunes (PerpInitInv k orth val)" by simp
      from scaled perp_init_inv_frame [OF r queue b sep this] True PerpInitInv show ?thesis by simp
    next
      case False
      from arm PerpInitInv have "\<not> perp_inv_expression_arm (PerpInitInv k orth val)" by simp
      then have other: "val = QOther" using False PerpInitInv by (cases val) simp_all
      with r queue show ?thesis
        by (auto simp: perp_init_inv_def queue_action_def split: option.splits)
    qed
  next
    case (Had k bit_e)
    with run have r: "had s k bit_e = Returned s' ()" by simp
    from inv Had have "structurally_distinct (branches s)" "separated {key_index k} (controls s) (branches s)"
      by simp_all
    from scaled had_frame [OF r queue b this] Had show ?thesis by simp
  next
    case (HadInv k bit_e)
    with run have r: "had s k bit_e = Returned s' ()" by (simp add: had_inv_def)
    from inv HadInv have "structurally_distinct (branches s)" "separated {key_index k} (controls s) (branches s)"
      by simp_all
    from scaled had_frame [OF r queue b this] HadInv show ?thesis by simp
  next
    case (Qft k d fl)
    with run have r: "qft s k d fl = Returned s' ()" by simp
    from inv Qft have "structurally_distinct (branches s)" "separated {key_index k} (controls s) (branches s)"
      by simp_all
    from scaled qft_frame [OF r queue b this] Qft show ?thesis by simp
  next
    case (QftInv k d fl)
    with run have r: "qft s k d (\<not> fl) = Returned s' ()" by (simp add: qft_inv_def)
    from inv QftInv have "structurally_distinct (branches s)" "separated {key_index k} (controls s) (branches s)"
      by simp_all
    from scaled qft_frame [OF r queue b this] QftInv show ?thesis by simp
  next
    case (Oper k expr do undo)
    with run have "oper s k expr do undo = Returned s' ()" by simp
    from oper_frame [OF this queue b] Oper show ?thesis by simp
  next
    case (OperInv k expr do undo)
    with run have "oper s k expr undo do = Returned s' ()" by (simp add: oper_inv_def)
    from oper_frame [OF this queue b] OperInv show ?thesis by simp
  next
    case (Phase theta)
    with run have "phase s theta = Returned s' ()" by simp
    from phase_frame [OF this queue b] Phase show ?thesis by simp
  next
    case (PhaseInv theta)
    with run have "phase s (neg_expr theta) = Returned s' ()" by (simp add: phase_inv_def)
    from phase_frame [OF this queue b] PhaseInv show ?thesis by simp
  qed
qed

lemma frame_example_norm:
  "sqrt (2 * (3 / (5 * sqrt 2))\<^sup>2 + (4 / 5)\<^sup>2) = 1"
proof -
  have "2 * (3 / (5 * sqrt 2))\<^sup>2 + (4 / 5)\<^sup>2 = (1 :: real)"
    by (simp add: power_divide power_mult_distrib)
  then show ?thesis by (simp del: power_divide)
qed

theorem frozen_branch_frame_witness:
  "call frame_example (Had key0 (const_expr 0))
     = Returned (prune (frame_example\<lparr>branches :=
         [\<lparr>amp = (3 / 5) / complex_of_real (sqrt 2), regs = [(0, ES False 0), (1, ES False 1)]\<rparr>,
          \<lparr>amp = (3 / 5) / complex_of_real (sqrt 2), regs = [(0, ES False 1), (1, ES False 1)]\<rparr>,
          \<lparr>amp = 4 / 5, regs = [(0, ES False 0), (1, ES False 0)]\<rparr>]\<rparr>)) ()
   \<and> queue_stack frame_example = []
   \<and> \<lparr>amp = 4 / 5, regs = [(0, ES False 0), (1, ES False 0)]\<rparr> \<in> set (branches frame_example)
   \<and> \<not> goodbranch (controls frame_example) \<lparr>amp = 4 / 5, regs = [(0, ES False 0), (1, ES False 0)]\<rparr>
   \<and> structurally_distinct (branches frame_example)
   \<and> separated (targets (Had key0 (const_expr 0))) (controls frame_example) (branches frame_example)
   \<and> merged frame_example (Had key0 (const_expr 0))
       = Inr [\<lparr>amp = (3 / 5) / complex_of_real (sqrt 2), regs = [(0, ES False 0), (1, ES False 1)]\<rparr>,
              \<lparr>amp = (3 / 5) / complex_of_real (sqrt 2), regs = [(0, ES False 1), (1, ES False 1)]\<rparr>,
              \<lparr>amp = 4 / 5, regs = [(0, ES False 0), (1, ES False 0)]\<rparr>]
   \<and> \<lparr>amp = 4 / 5, regs = [(0, ES False 0), (1, ES False 0)]\<rparr>
       \<in> set (branches (prune (frame_example\<lparr>branches :=
         [\<lparr>amp = (3 / 5) / complex_of_real (sqrt 2), regs = [(0, ES False 0), (1, ES False 1)]\<rparr>,
          \<lparr>amp = (3 / 5) / complex_of_real (sqrt 2), regs = [(0, ES False 1), (1, ES False 1)]\<rparr>,
          \<lparr>amp = 4 / 5, regs = [(0, ES False 0), (1, ES False 0)]\<rparr>]\<rparr>)))"
proof -
  let ?new = "[\<lparr>amp = (3 / 5) / complex_of_real (sqrt 2), regs = [(0, ES False 0), (1, ES False 1)]\<rparr>,
          \<lparr>amp = (3 / 5) / complex_of_real (sqrt 2), regs = [(0, ES False 1), (1, ES False 1)]\<rparr>,
          \<lparr>amp = 4 / 5, regs = [(0, ES False 0), (1, ES False 0)]\<rparr>]"
  let ?b = "\<lparr>amp = 4 / 5, regs = [(0, ES False 0), (1, ES False 0)]\<rparr>"
  have loop: "merged frame_example (Had key0 (const_expr 0)) = Inr ?new"
    by (simp add: frame_example_def eval_defs bit_eval branchesEqual_def)
  have run: "call frame_example (Had key0 (const_expr 0)) = Returned (prune (frame_example\<lparr>branches := ?new\<rparr>)) ()"
    by (simp add: had_def frame_example_def eval_defs bit_eval branchesEqual_def)
  have queue: "queue_stack frame_example = []"
    by (simp add: frame_example_def eval_defs)
  have b: "?b \<in> set (branches frame_example)" "\<not> goodbranch (controls frame_example) ?b"
    by (simp_all add: frame_example_def eval_defs)
  have uniq: "structurally_distinct (branches frame_example)"
    by (simp add: structurally_distinct_def frame_example_def eval_defs branchesEqual_def less_Suc_eq)
  have sep: "separated (targets (Had key0 (const_expr 0))) (controls frame_example) (branches frame_example)"
    by (simp add: separated_def frame_example_def eval_defs agree_off_def)
  have inv: "prunes (Had key0 (const_expr 0)) \<longrightarrow>
      structurally_distinct (branches frame_example)
      \<and> separated (targets (Had key0 (const_expr 0))) (controls frame_example) (branches frame_example)"
    using uniq sep by simp
  have arm: "\<not> perp_inv_expression_arm (Had key0 (const_expr 0))" by simp
  have big: "thresh < cmod (amp ?b)" by (simp add: thresh_def)
  have norm: "sqrt (sum_list (map prob_of (filter (\<lambda>x. \<not> cmod (amp x) \<le> thresh) ?new))) = 1"
  proof -
    have "sqrt 2 < 2" by (simp add: real_less_lsqrt)
    then have "(1 / 2 :: real) < 1 / sqrt 2" by (simp add: field_simps)
    then have "thresh < 3 / 5 * (1 / sqrt 2)" by (simp add: thresh_def)
    then have "\<not> 3 / (5 * sqrt 2) \<le> thresh" by simp
    then show ?thesis
      by (simp add: prob_of_def norm_divide thresh_def frame_example_norm del: of_real_divide)
  qed
  have self: "?b\<lparr>amp := amp ?b / complex_of_real
        (sqrt (sum_list (map prob_of (filter (\<lambda>x. \<not> cmod (amp x) \<le> thresh) ?new))))\<rparr> = ?b"
    unfolding norm by simp
  from frozen_branch_frame [OF run queue b arm inv]
  obtain new where n: "merged frame_example (Had key0 (const_expr 0)) = Inr new"
    "thresh < cmod (amp ?b) \<longrightarrow>
       ?b\<lparr>amp := amp ?b / complex_of_real
          (sqrt (sum_list (map prob_of (filter (\<lambda>x. \<not> cmod (amp x) \<le> thresh) new))))\<rparr>
         \<in> set (branches (prune (frame_example\<lparr>branches := ?new\<rparr>)))"
    unfolding prunes.simps by blast
  from n(1) have "new = ?new" unfolding loop by (simp only: sum.inject)
  with n(2) big
  have "?b\<lparr>amp := amp ?b / complex_of_real
          (sqrt (sum_list (map prob_of (filter (\<lambda>x. \<not> cmod (amp x) \<le> thresh) ?new))))\<rparr>
         \<in> set (branches (prune (frame_example\<lparr>branches := ?new\<rparr>)))"
    by blast
  then have "?b \<in> set (branches (prune (frame_example\<lparr>branches := ?new\<rparr>)))"
    unfolding self .
  with run queue b uniq sep loop show ?thesis by simp
qed

subsection \<open>The Fourier transform and its inverse\<close>

lemma half_norm: "(cmod (1 / complex_of_real (sqrt 2)))\<^sup>2 = 1 / 2"
  by (simp add: norm_divide power_divide)

lemma qft_run_had: "had (state_of [\<lparr>amp = 1, regs = [(0, es_of_int (- 1))]\<rparr>]) key0 (const_expr 0)
   = Returned (state_of [\<lparr>amp = 1 / complex_of_real (sqrt 2), regs = [(0, ES True 0)]\<rparr>,
                         \<lparr>amp = - (1 / complex_of_real (sqrt 2)), regs = [(0, ES True 1)]\<rparr>]) ()"
proof -
  have t: "thresh < cmod (1 / complex_of_real (sqrt 2))"
  proof -
    have "sqrt 2 < 2" by (simp add: real_less_lsqrt)
    then have "(1 / 2 :: real) < 1 / sqrt 2" by (simp add: field_simps)
    then show ?thesis by (simp add: thresh_def norm_divide)
  qed
  show ?thesis using t
    by (simp add: had_def prune_def prune_branches_def prob_of_def half_norm eval_defs bit_eval branchesEqual_def Let_def)
qed

lemma qft_run_measure: "measure_state (state_of [\<lparr>amp = 1 / complex_of_real (sqrt 2), regs = [(0, ES True 0)]\<rparr>,
                         \<lparr>amp = - (1 / complex_of_real (sqrt 2)), regs = [(0, ES True 1)]\<rparr>])
      key0 (QExpr (const_expr 0)) (Some True) r
   = Returned (state_of [\<lparr>amp = 1, regs = [(0, ES True 0)]\<rparr>]) (Prob (1 / 2))"
  by (simp add: measure_state_def ms_finish_def ms_outcome_def ms_renorm_def ms_return_def ms_expr_prob_def
        all_have_def the_reg_def prob_of_def half_norm eval_defs thresh_def real_sqrt_divide)


lemma thresh_half: "thresh < cmod (1 / complex_of_real (sqrt 2))"
proof -
  have "sqrt 2 < 2" by (simp add: real_less_lsqrt)
  then have "(1 / 2 :: real) < 1 / sqrt 2" by (simp add: field_simps)
  then show ?thesis by (simp add: thresh_def norm_divide)
qed

lemma qft_run_forward: "qft (state_of [\<lparr>amp = 1, regs = [(0, ES True 0)]\<rparr>]) key0 (const_expr 2) False
   = Returned (state_of [\<lparr>amp = 1 / complex_of_real (sqrt 2), regs = [(0, ES True 0)]\<rparr>,
                         \<lparr>amp = 1 / complex_of_real (sqrt 2), regs = [(0, ES True 1)]\<rparr>]) ()"
  using thresh_half
  by (simp add: qft_def prune_def prune_branches_def prob_of_def half_norm eval_defs qft_branch_def
        branchesEqual_def Let_def upt_eval)

lemma sqrt2_sq: "complex_of_real (sqrt 2) * complex_of_real (sqrt 2) = 2"
  by (simp flip: of_real_mult)

lemma sqrt_half: "sqrt (2 * (1 / 2)\<^sup>2) = 1 / sqrt 2"
proof -
  have "sqrt (2 * (1 / 2)\<^sup>2) = sqrt (1 / 2)" by (simp add: power2_eq_square)
  also have "\<dots> = 1 / sqrt 2" by (simp add: real_sqrt_divide)
  finally show ?thesis .
qed

lemma sqrt2_div: "complex_of_real (sqrt 2) = 2 / complex_of_real (sqrt 2)"
  by (simp add: eq_divide_eq sqrt2_sq)

lemma qft_run_backward: "qft_inv (state_of [\<lparr>amp = 1 / complex_of_real (sqrt 2), regs = [(0, ES True 0)]\<rparr>,
                         \<lparr>amp = 1 / complex_of_real (sqrt 2), regs = [(0, ES True 1)]\<rparr>]) key0 (const_expr 2) False
   = Returned (state_of [\<lparr>amp = 1 / complex_of_real (sqrt 2), regs = [(0, ES True 0)]\<rparr>,
                         \<lparr>amp = 1 / complex_of_real (sqrt 2), regs = [(0, ES True 2)]\<rparr>]) ()"
proof -
  have loop: "qft_loop [] key0 (const_expr 2) True
     [\<lparr>amp = 1 / complex_of_real (sqrt 2), regs = [(0, ES True 0)]\<rparr>,
      \<lparr>amp = 1 / complex_of_real (sqrt 2), regs = [(0, ES True 1)]\<rparr>] []
    = Inr [\<lparr>amp = 1 / 2, regs = [(0, ES True 0)]\<rparr>,
           \<lparr>amp = 0, regs = [(0, ES True 1)]\<rparr>,
           \<lparr>amp = 1 / 2, regs = [(0, ES True 2)]\<rparr>]"
    by (simp add: eval_defs qft_branch_def branchesEqual_def Let_def upt_eval sqrt2_sq)
  have pr: "prune_branches [\<lparr>amp = 1 / 2, regs = [(0, ES True 0)]\<rparr>,
           \<lparr>amp = 0, regs = [(0, ES True 1)]\<rparr>,
           \<lparr>amp = 1 / 2, regs = [(0, ES True 2)]\<rparr>]
     = [\<lparr>amp = 1 / complex_of_real (sqrt 2), regs = [(0, ES True 0)]\<rparr>,
        \<lparr>amp = 1 / complex_of_real (sqrt 2), regs = [(0, ES True 2)]\<rparr>]"
    using sqrt2_div by (simp add: prune_branches_def prob_of_def thresh_def sqrt_half)
  have q: "queue_action (state_of bs) a = None" "assert_mutable (state_of bs) key0 = None"
    "key_key key0 \<notin> expr_keys (const_expr 2)" "controls (state_of bs) = []" "branches (state_of bs) = bs"
    "prune ((state_of bs)\<lparr>branches := new\<rparr>) = state_of (prune_branches new)" for bs a new
    by (simp_all add: eval_defs prune_def)
  show ?thesis
    by (simp only: qft_inv_def qft_def q loop pr not_False_eq_True option.case if_False sum.case)
qed

text \<open>
  C3 (evaluation at the failing input): the register value with negative sign flag and
  magnitude 0. It arises from \<open>-1\<close> by \<^verbatim>\<open>had(key, 0)\<close>, and \<^verbatim>\<open>measure_state(key, 0, True)\<close> then leaves
  the single branch with that value. On it \<^verbatim>\<open>qft(key, 2)\<close> makes the values of magnitude 0 and 1
  with the sign flag of the source, that is \<open>-0\<close> and \<open>-1\<close>; \<^verbatim>\<open>qft_inv(key, 2)\<close> then spreads \<open>-1\<close>
  over \<open>-2\<close> and \<open>-1\<close>, and returns the superposition of \<open>-0\<close> and \<open>-2\<close> instead of the state it
  started from.
\<close>

theorem qft_round_trip_negative_zero:
  "had (state_of [\<lparr>amp = 1, regs = [(0, es_of_int (- 1))]\<rparr>]) key0 (const_expr 0)
     = Returned (state_of [\<lparr>amp = 1 / complex_of_real (sqrt 2), regs = [(0, ES True 0)]\<rparr>,
                           \<lparr>amp = - (1 / complex_of_real (sqrt 2)), regs = [(0, ES True 1)]\<rparr>]) ()
   \<and> measure_state (state_of [\<lparr>amp = 1 / complex_of_real (sqrt 2), regs = [(0, ES True 0)]\<rparr>,
                               \<lparr>amp = - (1 / complex_of_real (sqrt 2)), regs = [(0, ES True 1)]\<rparr>])
        key0 (QExpr (const_expr 0)) (Some True) 0
     = Returned (state_of [\<lparr>amp = 1, regs = [(0, ES True 0)]\<rparr>]) (Prob (1 / 2))
   \<and> qft (state_of [\<lparr>amp = 1, regs = [(0, ES True 0)]\<rparr>]) key0 (const_expr 2) False
     = Returned (state_of [\<lparr>amp = 1 / complex_of_real (sqrt 2), regs = [(0, ES True 0)]\<rparr>,
                           \<lparr>amp = 1 / complex_of_real (sqrt 2), regs = [(0, ES True 1)]\<rparr>]) ()
   \<and> qft_inv (state_of [\<lparr>amp = 1 / complex_of_real (sqrt 2), regs = [(0, ES True 0)]\<rparr>,
                         \<lparr>amp = 1 / complex_of_real (sqrt 2), regs = [(0, ES True 1)]\<rparr>]) key0 (const_expr 2) False
     = Returned (state_of [\<lparr>amp = 1 / complex_of_real (sqrt 2), regs = [(0, ES True 0)]\<rparr>,
                           \<lparr>amp = 1 / complex_of_real (sqrt 2), regs = [(0, ES True 2)]\<rparr>]) ()"
  by (simp only: qft_run_had qft_run_measure qft_run_forward qft_run_backward simp_thms)

end
